theory Spec2Isabelle
  imports Complex_Main
begin

section \<open>Data model\<close>

text \<open>
  Words are Python strings, letters and feedback colours their one-character
  substrings. A pattern is the tuple built from the five-cell list of
  \<open>get_pattern\<close>: each cell is the empty string (not yet decided), \<open>C\<close>,
  \<open>P\<close> or \<open>A\<close>. The only exception the core can raise is \<open>IndexError\<close>.
\<close>

datatype error = IndexError

type_synonym pattern = "string list"

type_synonym counts = "char \<Rightarrow> nat"

section \<open>Pattern computation (\<open>get_pattern\<close>)\<close>

text \<open>
  First pass, over \<open>enumerate(zip(guess, target))\<close>: equal letters mark the
  cell \<open>C\<close> and are counted. Writing \<open>pattern[i]\<close> beyond the list raises.
\<close>

fun first_pass ::
  "nat \<Rightarrow> (char \<times> char) list \<Rightarrow> pattern \<times> counts \<Rightarrow> error + pattern \<times> counts" where
  "first_pass i [] st = Inr st"
| "first_pass i ((g, t) # rest) (pattern, counts) =
     (if g = t then
        (if i < length pattern
         then first_pass (Suc i) rest (pattern[i := ''C''], counts(t := counts t + 1))
         else Inl IndexError)
      else first_pass (Suc i) rest (pattern, counts))"

text \<open>
  Second pass, over \<open>enumerate(guess)\<close>: a cell already \<open>C\<close> is skipped;
  otherwise the letter is \<open>P\<close> while the target holds more copies of it than
  were consumed so far, and \<open>A\<close> after that. Reading \<open>pattern[i]\<close> beyond
  the list raises.
\<close>

fun second_pass ::
  "string \<Rightarrow> nat \<Rightarrow> string \<Rightarrow> pattern \<times> counts \<Rightarrow> error + pattern \<times> counts" where
  "second_pass target i [] st = Inr st"
| "second_pass target i (g # rest) (pattern, counts) =
     (if i < length pattern then
        (if pattern ! i = ''C'' then second_pass target (Suc i) rest (pattern, counts)
         else
           (let total_in_target = length (filter (\<lambda>t. t = g) target) in
            if total_in_target > counts g
            then second_pass target (Suc i) rest (pattern[i := ''P''], counts(g := counts g + 1))
            else second_pass target (Suc i) rest (pattern[i := ''A''], counts)))
      else Inl IndexError)"

definition get_pattern :: "string \<Rightarrow> string \<Rightarrow> error + pattern" where
  "get_pattern guess target =
     (case first_pass 0 (zip guess target) (replicate 5 '''', \<lambda>_. 0) of
        Inl e \<Rightarrow> Inl e
      | Inr st \<Rightarrow>
          (case second_pass target 0 guess st of
             Inl e \<Rightarrow> Inl e
           | Inr (pattern, counts) \<Rightarrow> Inr pattern))"

section \<open>Memoized pattern computation (\<open>get_pattern_cached\<close>)\<close>

text \<open>
  The class-level dictionary \<open>_pattern_cache\<close> is threaded explicitly: every
  function that reaches it takes the cache and returns the cache it leaves.
  A raised exception stores nothing.
\<close>

type_synonym cache = "string \<times> string \<rightharpoonup> pattern"

definition get_pattern_cached ::
  "cache \<Rightarrow> string \<Rightarrow> string \<Rightarrow> (error + pattern) \<times> cache" where
  "get_pattern_cached cache guess target =
     (let key = (guess, target) in
      case cache key of
        None \<Rightarrow>
          (case get_pattern guess target of
             Inl e \<Rightarrow> (Inl e, cache)
           | Inr pattern \<Rightarrow> (Inr pattern, cache(key \<mapsto> pattern)))
      | Some pattern \<Rightarrow> (Inr pattern, cache))"

section \<open>Game states\<close>

text \<open>
  One game is the dictionary with keys \<open>possible\<close>, \<open>correct\<close>,
  \<open>present\<close> and \<open>absent\<close>; an unknown position of \<open>correct\<close> holds
  the character \<open>?\<close>. The solver owns the two word lists and 16 games.
\<close>

record game =
  possible :: "string list"
  correct :: "char list"
  present :: "char set"
  absent :: "char set"

record solver =
  answers :: "string list"
  allowed :: "string list"
  games :: "game list"

definition init_games :: "string list \<Rightarrow> game list" where
  "init_games answers_list =
     replicate 16 \<lparr>possible = answers_list, correct = replicate 5 (CHR ''?''),
                   present = {}, absent = {}\<rparr>"

section \<open>The numbers of the runtime\<close>

text \<open>
  The scores are Python floats. Their arithmetic belongs to the runtime, not to
  this program: the true division of two integers, \<open>math.log2\<close>, the unary
  minus, the product, the sum, the builtin \<open>sum\<close> (whose rounding differs
  between interpreter versions), \<open>float('inf')\<close> and the comparisons. The model
  takes it as a parameter, a record of operations over a type \<open>'f\<close> of numbers;
  \<open>f_zero\<close> is the integer \<open>0\<close> that starts \<open>total_entropy\<close>. The
  comparisons \<open>>=\<close> and \<open>==\<close> are not used by the program; they state
  what is claimed of its results.
\<close>

record 'f arith =
  f_zero :: "'f"
  f_div :: "nat \<Rightarrow> nat \<Rightarrow> 'f"
  f_log2 :: "'f \<Rightarrow> 'f"
  f_neg :: "'f \<Rightarrow> 'f"
  f_mul :: "'f \<Rightarrow> 'f \<Rightarrow> 'f"
  f_add :: "'f \<Rightarrow> 'f \<Rightarrow> 'f"
  f_sum :: "'f list \<Rightarrow> 'f"
  f_inf :: "'f"
  f_gt :: "'f \<Rightarrow> 'f \<Rightarrow> bool"
  f_ge :: "'f \<Rightarrow> 'f \<Rightarrow> bool"
  f_eq :: "'f \<Rightarrow> 'f \<Rightarrow> bool"

section \<open>Entropy of a guess (\<open>calculate_entropy\<close>)\<close>

text \<open>
  \<open>pattern_counts\<close> is a dictionary with default 0, kept here in insertion
  order; \<open>incr\<close> is \<open>pattern_counts[pattern] += 1\<close>.
\<close>

fun incr :: "(pattern \<times> nat) list \<Rightarrow> pattern \<Rightarrow> (pattern \<times> nat) list" where
  "incr [] pattern = [(pattern, 1)]"
| "incr ((k, n) # rest) pattern =
     (if k = pattern then (k, n + 1) # rest else (k, n) # incr rest pattern)"

fun count_patterns ::
  "cache \<Rightarrow> string \<Rightarrow> string list \<Rightarrow> (pattern \<times> nat) list
     \<Rightarrow> (error + (pattern \<times> nat) list) \<times> cache" where
  "count_patterns cache word [] pattern_counts = (Inr pattern_counts, cache)"
| "count_patterns cache word (p # rest) pattern_counts =
     (case get_pattern_cached cache word p of
        (Inl e, cache') \<Rightarrow> (Inl e, cache')
      | (Inr pattern, cache') \<Rightarrow> count_patterns cache' word rest (incr pattern_counts pattern))"

text \<open>
  \<open>entropy_term\<close> is the summand \<open>-(count/total) * math.log2(count/total)\<close>;
  the builtin \<open>sum\<close> receives the summands in the order of
  \<open>pattern_counts.values()\<close>. The local \<open>total\<close> is written \<open>tot\<close>; it
  is not 0 where the quotient is taken.
\<close>

definition entropy_term :: "'f arith \<Rightarrow> nat \<Rightarrow> nat \<Rightarrow> 'f" where
  "entropy_term ar count tot =
     f_mul ar (f_neg ar (f_div ar count tot)) (f_log2 ar (f_div ar count tot))"

fun entropy_loop ::
  "'f arith \<Rightarrow> cache \<Rightarrow> string \<Rightarrow> game list \<Rightarrow> 'f \<Rightarrow> (error + 'f) \<times> cache" where
  "entropy_loop ar cache word [] total_entropy = (Inr total_entropy, cache)"
| "entropy_loop ar cache word (state # rest) total_entropy =
     (if possible state = [] then entropy_loop ar cache word rest total_entropy
      else
        (case count_patterns cache word (possible state) [] of
           (Inl e, cache') \<Rightarrow> (Inl e, cache')
         | (Inr pattern_counts, cache') \<Rightarrow>
             (let tot = length (possible state);
                  entropy = f_sum ar (map (\<lambda>count. entropy_term ar count tot)
                                          (map snd pattern_counts))
              in entropy_loop ar cache' word rest (f_add ar total_entropy entropy))))"

definition calculate_entropy ::
  "'f arith \<Rightarrow> cache \<Rightarrow> string \<Rightarrow> game list \<Rightarrow> (error + 'f) \<times> cache" where
  "calculate_entropy ar cache word game_states =
     entropy_loop ar cache word game_states (f_zero ar)"

section \<open>Choosing the guess (\<open>get_best_guess\<close>)\<close>

text \<open>\<open>best_score\<close> starts at \<open>-float('inf')\<close>.\<close>

fun best_loop ::
  "'f arith \<Rightarrow> cache \<Rightarrow> game list \<Rightarrow> string list \<Rightarrow> string option \<Rightarrow> 'f
     \<Rightarrow> (error + string option) \<times> cache" where
  "best_loop ar cache active_games [] best_word best_score = (Inr best_word, cache)"
| "best_loop ar cache active_games (word # rest) best_word best_score =
     (case calculate_entropy ar cache word active_games of
        (Inl e, cache') \<Rightarrow> (Inl e, cache')
      | (Inr score, cache') \<Rightarrow>
          (if f_gt ar score best_score
           then best_loop ar cache' active_games rest (Some word) score
           else best_loop ar cache' active_games rest best_word best_score))"

definition get_best_guess ::
  "'f arith \<Rightarrow> cache \<Rightarrow> solver \<Rightarrow> (error + string option) \<times> cache" where
  "get_best_guess ar cache self =
     (let active_games = filter (\<lambda>g. possible g \<noteq> []) (games self) in
      if active_games = [] then (Inr None, cache)
      else
        (let candidates = take 2316 (allowed self)
         in best_loop ar cache active_games candidates None (f_neg ar (f_inf ar))))"

section \<open>Applying feedback (\<open>update_games\<close>)\<close>

text \<open>The loop over \<open>enumerate(feedback)\<close> that records the constraints.\<close>

fun record_feedback :: "nat \<Rightarrow> (char \<times> char) list \<Rightarrow> game \<Rightarrow> error + game" where
  "record_feedback i [] game = Inr game"
| "record_feedback i ((letter, color) # rest) game =
     (if color = CHR ''C'' then
        (if i < length (correct game)
         then record_feedback (Suc i) rest
                (game\<lparr>correct := (correct game)[i := letter],
                      present := present game - {letter}\<rparr>)
         else Inl IndexError)
      else if color = CHR ''P'' then
        record_feedback (Suc i) rest (game\<lparr>present := insert letter (present game)\<rparr>)
      else if color = CHR ''A'' then
        record_feedback (Suc i) rest (game\<lparr>absent := insert letter (absent game)\<rparr>)
      else record_feedback (Suc i) rest game)"

text \<open>
  The four checks of one candidate word. The two loops with \<open>break\<close> return
  the flag \<open>valid\<close>; \<open>word[i]\<close> and \<open>game['correct'][i]\<close> raise beyond
  the end, and are only evaluated where the source's \<open>and\<close> reaches them.
\<close>

fun check_correct :: "string \<Rightarrow> nat \<Rightarrow> char list \<Rightarrow> error + bool" where
  "check_correct word i [] = Inr True"
| "check_correct word i (c # rest) =
     (if c \<noteq> CHR ''?'' then
        (if i < length word
         then (if word ! i \<noteq> c then Inr False else check_correct word (Suc i) rest)
         else Inl IndexError)
      else check_correct word (Suc i) rest)"

definition missing_present :: "game \<Rightarrow> string \<Rightarrow> bool" where
  "missing_present game word = (\<exists>p \<in> present game. p \<notin> set word)"

definition holds_absent :: "game \<Rightarrow> string \<Rightarrow> bool" where
  "holds_absent game word =
     (\<exists>a \<in> {a \<in> absent game. a \<notin> set (correct game) \<and> a \<notin> present game}. a \<in> set word)"

fun check_positions :: "game \<Rightarrow> nat \<Rightarrow> string \<Rightarrow> error + bool" where
  "check_positions game i [] = Inr True"
| "check_positions game i (letter # rest) =
     (if letter \<in> present game then
        (if i < length (correct game)
         then (if letter = correct game ! i then Inr False
               else check_positions game (Suc i) rest)
         else Inl IndexError)
      else check_positions game (Suc i) rest)"

definition word_valid :: "game \<Rightarrow> string \<Rightarrow> error + bool" where
  "word_valid game word =
     (case check_correct word 0 (correct game) of
        Inl e \<Rightarrow> Inl e
      | Inr valid \<Rightarrow>
          (let valid = (if valid \<and> missing_present game word then False else valid);
               valid = (if valid \<and> holds_absent game word then False else valid)
           in if valid then check_positions game 0 word else Inr valid))"

fun filter_possible :: "game \<Rightarrow> string list \<Rightarrow> string list \<Rightarrow> error + string list" where
  "filter_possible game [] new_possible = Inr new_possible"
| "filter_possible game (word # rest) new_possible =
     (case word_valid game word of
        Inl e \<Rightarrow> Inl e
      | Inr valid \<Rightarrow>
          filter_possible game rest (if valid then new_possible @ [word] else new_possible))"

definition update_game :: "game \<Rightarrow> (char \<times> char) list \<Rightarrow> error + game" where
  "update_game game feedback =
     (case record_feedback 0 feedback game of
        Inl e \<Rightarrow> Inl e
      | Inr game' \<Rightarrow>
          (case filter_possible game' (possible game') [] of
             Inl e \<Rightarrow> Inl e
           | Inr new_possible \<Rightarrow> Inr (game'\<lparr>possible := new_possible\<rparr>)))"

fun update_loop :: "nat \<Rightarrow> (char \<times> char) list list \<Rightarrow> game list \<Rightarrow> error + game list" where
  "update_loop game_idx [] gs = Inr gs"
| "update_loop game_idx (feedback # rest) gs =
     (if feedback = [] then update_loop (Suc game_idx) rest gs
      else if game_idx < length gs then
        (case update_game (gs ! game_idx) feedback of
           Inl e \<Rightarrow> Inl e
         | Inr game \<Rightarrow> update_loop (Suc game_idx) rest (gs[game_idx := game]))
      else Inl IndexError)"

definition update_games :: "solver \<Rightarrow> string \<Rightarrow> (char \<times> char) list list \<Rightarrow> error + solver" where
  "update_games self guess feedbacks =
     (case update_loop 0 feedbacks (games self) of
        Inl e \<Rightarrow> Inl e
      | Inr gs \<Rightarrow> Inr (self\<lparr>games := gs\<rparr>))"

section \<open>Removing redundant constraints (\<open>clean_constraints\<close>)\<close>

definition clean_game :: "game \<Rightarrow> game" where
  "clean_game game =
     (let game = game\<lparr>present := {p \<in> present game. p \<notin> set (correct game)}\<rparr>
      in game\<lparr>absent := {a \<in> absent game. a \<notin> set (correct game) \<and> a \<notin> present game}\<rparr>)"

definition clean_constraints :: "solver \<Rightarrow> solver" where
  "clean_constraints self = self\<lparr>games := map clean_game (games self)\<rparr>"

section \<open>Well-formed states and the filtering rules of the specification\<close>

text \<open>
  A word is five letters long (the word type of the specification) and
  \<open>correct\<close> has five entries, as the constructor builds it.
\<close>

definition wf_game :: "game \<Rightarrow> bool" where
  "wf_game game = (length (correct game) = 5 \<and> (\<forall>w\<in>set (possible game). length w = 5))"

text \<open>
  The four rules of the specification for keeping a candidate \<open>w\<close>, written
  from its words and compared below with the loop of the source. The values of
  \<open>correct\<close> are the entries of the list, as in the source's
  \<open>a not in game['correct']\<close>.
\<close>

definition rule_a :: "game \<Rightarrow> string \<Rightarrow> bool" where
  "rule_a game w = (\<forall>i<5. correct game ! i \<noteq> CHR ''?'' \<longrightarrow> w ! i = correct game ! i)"

definition rule_b :: "game \<Rightarrow> string \<Rightarrow> bool" where
  "rule_b game w = (\<forall>p\<in>present game. p \<in> set w)"

definition rule_c :: "game \<Rightarrow> string \<Rightarrow> bool" where
  "rule_c game w =
     (\<forall>a\<in>absent game. a \<in> set w \<longrightarrow> a \<in> set (correct game) \<or> a \<in> present game)"

definition rule_d :: "game \<Rightarrow> string \<Rightarrow> bool" where
  "rule_d game w = (\<forall>i<5. \<not> (w ! i \<in> present game \<and> w ! i = correct game ! i))"

definition keeps :: "game \<Rightarrow> string \<Rightarrow> bool" where
  "keeps game w = (rule_a game w \<and> rule_b game w \<and> rule_c game w \<and> rule_d game w)"

section \<open>Caches the program can reach\<close>

text \<open>
  \<open>_pattern_cache\<close> starts empty and only \<open>get_pattern_cached\<close> writes to
  it. \<open>cache_ok\<close> is the invariant this gives: every entry is the pattern of
  its key.
\<close>

definition cache_ok :: "cache \<Rightarrow> bool" where
  "cache_ok cache =
     (\<forall>guess target pattern.
        cache (guess, target) = Some pattern \<longrightarrow> get_pattern guess target = Inr pattern)"

inductive cache_reachable :: "cache \<Rightarrow> bool" where
  initial: "cache_reachable Map.empty"
| call: "cache_reachable cache \<Longrightarrow>
         cache_reachable (snd (get_pattern_cached cache guess target))"

section \<open>Positions of a letter that a pattern marks\<close>

text \<open>
  The positions below \<open>n\<close> where the guess holds the letter \<open>l\<close> and the
  pattern says \<open>C\<close> or \<open>P\<close>; the counter of \<open>get_pattern\<close> for \<open>l\<close>
  is the size of this set throughout the second pass.
\<close>

definition marked :: "nat \<Rightarrow> string \<Rightarrow> pattern \<Rightarrow> char \<Rightarrow> nat set" where
  "marked n guess p l = {j. j < n \<and> guess ! j = l \<and> (p ! j = ''C'' \<or> p ! j = ''P'')}"

section \<open>What the theorems need of the numbers\<close>

text \<open>
  Three groups of properties of the runtime's arithmetic, each a hypothesis of
  the theorems that use it. They hold of IEEE doubles with \<open>math.log2\<close>, and
  of exact arithmetic.

  Sign, up to \<open>n\<close> candidates: 0 is at least 0; the sum of two numbers that
  are at least 0 is at least 0, and so is the builtin \<open>sum\<close> of a list of at
  most \<open>n\<close> such numbers; for \<open>1 \<le> count \<le> total \<le> n\<close> the summand is at
  least 0 (the quotient lies in (0, 1] and its logarithm is at most 0). The
  bound \<open>n\<close> is there because rounding can break both once the numbers
  involved are astronomically large, far beyond a list that fits in memory.
\<close>

definition sign_arith :: "'f arith \<Rightarrow> nat \<Rightarrow> bool" where
  "sign_arith ar n =
     (f_ge ar (f_zero ar) (f_zero ar) \<and>
      (\<forall>a b. f_ge ar a (f_zero ar) \<and> f_ge ar b (f_zero ar)
          \<longrightarrow> f_ge ar (f_add ar a b) (f_zero ar)) \<and>
      (\<forall>xs. length xs \<le> n \<and> (\<forall>x\<in>set xs. f_ge ar x (f_zero ar))
          \<longrightarrow> f_ge ar (f_sum ar xs) (f_zero ar)) \<and>
      (\<forall>count tot. 1 \<le> count \<and> count \<le> tot \<and> tot \<le> n
          \<longrightarrow> f_ge ar (entropy_term ar count tot) (f_zero ar)))"

text \<open>
  Zero: 0 equals 0; the sum of two numbers equal to 0 equals 0, and so does the
  builtin \<open>sum\<close> of a list of such numbers; the summand for \<open>count = total = 1\<close>
  equals 0 (it is \<open>-1.0 * 0.0\<close>).
\<close>

definition zero_arith :: "'f arith \<Rightarrow> bool" where
  "zero_arith ar =
     (f_eq ar (f_zero ar) (f_zero ar) \<and>
      (\<forall>a b. f_eq ar a (f_zero ar) \<and> f_eq ar b (f_zero ar)
          \<longrightarrow> f_eq ar (f_add ar a b) (f_zero ar)) \<and>
      (\<forall>xs. (\<forall>x\<in>set xs. f_eq ar x (f_zero ar)) \<longrightarrow> f_eq ar (f_sum ar xs) (f_zero ar)) \<and>
      f_eq ar (entropy_term ar 1 1) (f_zero ar))"

text \<open>
  Order: a number that is at least 0 is greater than \<open>-float('inf')\<close>; and on
  the numbers that are at least 0, together with \<open>-float('inf')\<close>, the
  comparison \<open>>\<close> is irreflexive and transitive, and whenever \<open>a > c\<close> every
  \<open>b\<close> has \<open>a > b\<close> or \<open>b > c\<close> (none of these numbers is a NaN).
\<close>

definition scored :: "'f arith \<Rightarrow> 'f \<Rightarrow> bool" where
  "scored ar x = (f_ge ar x (f_zero ar) \<or> x = f_neg ar (f_inf ar))"

definition order_arith :: "'f arith \<Rightarrow> bool" where
  "order_arith ar =
     ((\<forall>a. f_ge ar a (f_zero ar) \<longrightarrow> f_gt ar a (f_neg ar (f_inf ar))) \<and>
      (\<forall>a. scored ar a \<longrightarrow> \<not> f_gt ar a a) \<and>
      (\<forall>a b c. scored ar a \<and> scored ar b \<and> scored ar c \<and> f_gt ar a b \<and> f_gt ar b c
          \<longrightarrow> f_gt ar a c) \<and>
      (\<forall>a b c. scored ar a \<and> scored ar b \<and> scored ar c \<and> f_gt ar a c
          \<longrightarrow> f_gt ar a b \<or> f_gt ar b c))"

text \<open>
  Exact arithmetic on the real numbers, an instance of all three groups. The
  reals have no infinity; \<open>1\<close> stands for it, so that \<open>-1\<close> lies below every
  score.
\<close>

definition exact_arith :: "real arith" where
  "exact_arith =
     \<lparr>f_zero = 0,
      f_div = (\<lambda>count tot. real count / real tot),
      f_log2 = log 2,
      f_neg = uminus,
      f_mul = (*),
      f_add = (+),
      f_sum = sum_list,
      f_inf = 1,
      f_gt = (\<lambda>a b. a > b),
      f_ge = (\<lambda>a b. a \<ge> b),
      f_eq = (=)\<rparr>"

section \<open>Scenario: CRANE against TRACE\<close>

text \<open>
  C2, as the specification states it: the pattern of CRANE against TRACE is
  (Absent, Correct, Present, Present, Correct). The code gives
  (Present, Correct, Correct, Absent, Correct): C occurs in TRACE at another
  position, A sits at the same position in both words, N does not occur.
\<close>

theorem C2_crane_trace_counterexample:
  "get_pattern ''CRANE'' ''TRACE'' \<noteq> Inr [''A'', ''C'', ''P'', ''P'', ''C'']"
  by (simp add: get_pattern_def numeral_eq_Suc)

text \<open>
  C2, amended: the pattern of CRANE against TRACE is
  (Present, Correct, Correct, Absent, Correct).
\<close>

theorem C2_crane_trace:
  "get_pattern ''CRANE'' ''TRACE'' = Inr [''P'', ''C'', ''C'', ''A'', ''C'']"
  by (simp add: get_pattern_def numeral_eq_Suc)

section \<open>Filtering candidates\<close>


lemma all_less_Suc_shift: "(\<forall>k<Suc n. P k) = (P 0 \<and> (\<forall>k<n. P (Suc k)))"
  by (auto simp: less_Suc_eq_0_disj)

lemma check_correct_eq:
  "i + length cs \<le> length word \<Longrightarrow>
   check_correct word i cs = Inr (\<forall>k<length cs. cs ! k \<noteq> CHR ''?'' \<longrightarrow> word ! (i + k) = cs ! k)"
proof (induction cs arbitrary: i)
  case Nil
  then show ?case by simp
next
  case (Cons c cs)
  from Cons.prems have "Suc i + length cs \<le> length word" by simp
  from Cons.IH[OF this] Cons.prems show ?case
    by (simp add: all_less_Suc_shift)
qed

lemma check_positions_eq:
  "i + length ws \<le> length (correct game) \<Longrightarrow>
   check_positions game i ws =
     Inr (\<forall>k<length ws. \<not> (ws ! k \<in> present game \<and> ws ! k = correct game ! (i + k)))"
proof (induction ws arbitrary: i)
  case Nil
  then show ?case by simp
next
  case (Cons w ws)
  from Cons.prems have "Suc i + length ws \<le> length (correct game)" by simp
  from Cons.IH[OF this] Cons.prems show ?case
    by (auto simp add: all_less_Suc_shift)
qed

lemma valid_flags:
  "(let valid = (if a \<and> b then False else a);
        valid = (if valid \<and> c then False else valid)
    in if valid then Inr d else Inr valid) = (Inr (a \<and> \<not> b \<and> \<not> c \<and> d) :: error + bool)"
  by (simp add: Let_def)

lemma word_valid_eq:
  assumes "length (correct game) = 5" and "length w = 5"
  shows "word_valid game w = Inr (keeps game w)"
proof -
  have a: "check_correct w 0 (correct game) =
      Inr (\<forall>i<5. correct game ! i \<noteq> CHR ''?'' \<longrightarrow> w ! i = correct game ! i)"
    using assms check_correct_eq[of 0 "correct game" w] by simp
  have d: "check_positions game 0 w =
      Inr (\<forall>i<5. \<not> (w ! i \<in> present game \<and> w ! i = correct game ! i))"
    using assms check_positions_eq[of 0 w game] by simp
  have "word_valid game w =
      Inr ((\<forall>i<5. correct game ! i \<noteq> CHR ''?'' \<longrightarrow> w ! i = correct game ! i) \<and>
           \<not> missing_present game w \<and> \<not> holds_absent game w \<and>
           (\<forall>i<5. \<not> (w ! i \<in> present game \<and> w ! i = correct game ! i)))"
    unfolding word_valid_def a d sum.case by (rule valid_flags)
  also have "\<dots> = Inr (keeps game w)"
    unfolding keeps_def rule_a_def rule_b_def rule_c_def rule_d_def
      missing_present_def holds_absent_def by auto
  finally show ?thesis .
qed

text \<open>
  On a five-letter word that does not contain the character \<open>?\<close>, rules (c)
  and (d) read the same when only the entries of \<open>correct\<close> other than the
  marker \<open>?\<close> count as recorded letters.
\<close>

lemma rules_without_marker:
  assumes "CHR ''?'' \<notin> set w" and "length w = 5"
  shows "rule_c game w =
           (\<forall>a\<in>absent game. a \<in> set w \<longrightarrow>
              a \<in> set (filter (\<lambda>c. c \<noteq> CHR ''?'') (correct game)) \<or> a \<in> present game)"
    and "rule_d game w =
           (\<forall>i<5. \<not> (w ! i \<in> present game \<and> correct game ! i \<noteq> CHR ''?'' \<and>
                        w ! i = correct game ! i))"
proof -
  show "rule_c game w =
           (\<forall>a\<in>absent game. a \<in> set w \<longrightarrow>
              a \<in> set (filter (\<lambda>c. c \<noteq> CHR ''?'') (correct game)) \<or> a \<in> present game)"
    using assms(1) unfolding rule_c_def by auto
  have "w ! i \<noteq> CHR ''?''" if "i < 5" for i
    using assms that by (metis nth_mem)
  then show "rule_d game w =
           (\<forall>i<5. \<not> (w ! i \<in> present game \<and> correct game ! i \<noteq> CHR ''?'' \<and>
                        w ! i = correct game ! i))"
    unfolding rule_d_def by metis
qed

lemma filter_possible_eq:
  "(\<And>w. w \<in> set ws \<Longrightarrow> word_valid game w = Inr (P w)) \<Longrightarrow>
   filter_possible game ws acc = Inr (acc @ filter P ws)"
  by (induction ws arbitrary: acc) auto

lemma record_feedback_ok:
  "i + length fb \<le> length (correct game) \<Longrightarrow>
   \<exists>game'. record_feedback i fb game = Inr game' \<and>
            length (correct game') = length (correct game) \<and>
            possible game' = possible game"
proof (induction fb arbitrary: i game)
  case Nil
  then show ?case by simp
next
  case (Cons x fb)
  obtain letter color where x: "x = (letter, color)" by (cases x)
  show ?case
    using Cons.prems x
      Cons.IH[of "Suc i" "game\<lparr>correct := (correct game)[i := letter], present := present game - {letter}\<rparr>"]
      Cons.IH[of "Suc i" "game\<lparr>present := insert letter (present game)\<rparr>"]
      Cons.IH[of "Suc i" "game\<lparr>absent := insert letter (absent game)\<rparr>"]
      Cons.IH[of "Suc i" game]
    by (simp split: if_splits)
qed

lemma update_game_eq:
  assumes "wf_game game0" and "length feedback \<le> 5"
  shows "\<exists>game. record_feedback 0 feedback game0 = Inr game \<and>
           length (correct game) = 5 \<and> possible game = possible game0 \<and>
           update_game game0 feedback =
             Inr (game\<lparr>possible := filter (keeps game) (possible game0)\<rparr>)"
proof -
  from assms have "0 + length feedback \<le> length (correct game0)"
    by (simp add: wf_game_def)
  from record_feedback_ok[OF this] obtain game where
    g: "record_feedback 0 feedback game0 = Inr game"
       "length (correct game) = length (correct game0)"
       "possible game = possible game0"
    by blast
  from g assms have len: "length (correct game) = 5"
    and ws: "\<And>w. w \<in> set (possible game) \<Longrightarrow> length w = 5"
    by (simp_all add: wf_game_def)
  have "filter_possible game (possible game) [] = Inr ([] @ filter (keeps game) (possible game))"
    by (rule filter_possible_eq) (simp add: word_valid_eq len ws)
  with g len show ?thesis
    by (simp add: update_game_def)
qed

lemma update_game_ok:
  assumes "wf_game game0" and "length feedback \<le> 5"
  shows "\<exists>game. update_game game0 feedback = Inr game \<and> wf_game game \<and>
           set (possible game) \<subseteq> set (possible game0)"
proof -
  from update_game_eq[OF assms] obtain game where
    g: "length (correct game) = 5"
       "update_game game0 feedback = Inr (game\<lparr>possible := filter (keeps game) (possible game0)\<rparr>)"
    by blast
  from assms(1) have "\<forall>w\<in>set (filter (keeps game) (possible game0)). length w = 5"
    by (simp add: wf_game_def)
  with g show ?thesis
    by (auto simp: wf_game_def)
qed

lemma update_loop_ok:
  assumes "idx + length fbs \<le> length gs"
    and "\<forall>fb\<in>set fbs. length fb \<le> 5"
    and "\<forall>g\<in>set gs. wf_game g"
  shows "\<exists>gs'. update_loop idx fbs gs = Inr gs' \<and> length gs' = length gs \<and>
           (\<forall>g\<in>set gs'. wf_game g) \<and>
           (\<forall>k<length gs. set (possible (gs' ! k)) \<subseteq> set (possible (gs ! k))) \<and>
           (\<forall>k<length gs. k < idx \<or> idx + length fbs \<le> k \<or> fbs ! (k - idx) = []
                \<longrightarrow> gs' ! k = gs ! k)"
  using assms
proof (induction fbs arbitrary: idx gs)
  case Nil
  then show ?case by simp
next
  case (Cons fb fbs)
  show ?case
  proof (cases "fb = []")
    case True
    from Cons.prems have "Suc idx + length fbs \<le> length gs" "\<forall>fb\<in>set fbs. length fb \<le> 5"
      by simp_all
    from Cons.IH[OF this Cons.prems(3)] obtain gs' where
      r: "update_loop (Suc idx) fbs gs = Inr gs'" "length gs' = length gs"
         "\<forall>g\<in>set gs'. wf_game g"
         "\<forall>k<length gs. set (possible (gs' ! k)) \<subseteq> set (possible (gs ! k))"
         "\<forall>k<length gs. k < Suc idx \<or> Suc idx + length fbs \<le> k \<or> fbs ! (k - Suc idx) = []
                \<longrightarrow> gs' ! k = gs ! k"
      by blast
    have "\<forall>k<length gs. k < idx \<or> idx + length (fb # fbs) \<le> k \<or> (fb # fbs) ! (k - idx) = []
                \<longrightarrow> gs' ! k = gs ! k"
    proof (intro allI impI)
      fix k assume k: "k < length gs"
        and c: "k < idx \<or> idx + length (fb # fbs) \<le> k \<or> (fb # fbs) ! (k - idx) = []"
      have "k < Suc idx \<or> Suc idx + length fbs \<le> k \<or> fbs ! (k - Suc idx) = []"
      proof (cases "k \<le> idx")
        case True
        then show ?thesis by simp
      next
        case False
        then have "(fb # fbs) ! (k - idx) = fbs ! (k - Suc idx)"
          by (simp add: nth_Cons')
        with c False show ?thesis by auto
      qed
      with r(5) k show "gs' ! k = gs ! k" by blast
    qed
    with r True show ?thesis by simp
  next
    case False
    from Cons.prems have idx: "idx < length gs" and fb5: "length fb \<le> 5" by simp_all
    from Cons.prems(3) idx have "wf_game (gs ! idx)" by simp
    from update_game_ok[OF this fb5] obtain game where
      g: "update_game (gs ! idx) fb = Inr game" "wf_game game"
         "set (possible game) \<subseteq> set (possible (gs ! idx))"
      by blast
    let ?gs1 = "gs[idx := game]"
    have wf1: "\<forall>g\<in>set ?gs1. wf_game g"
      using Cons.prems(3) g(2) set_update_subset_insert[of gs idx game] by auto
    from Cons.prems have "Suc idx + length fbs \<le> length ?gs1" "\<forall>fb\<in>set fbs. length fb \<le> 5"
      by simp_all
    from Cons.IH[OF this wf1] obtain gs' where
      r: "update_loop (Suc idx) fbs ?gs1 = Inr gs'" "length gs' = length gs"
         "\<forall>g\<in>set gs'. wf_game g"
         "\<forall>k<length gs. set (possible (gs' ! k)) \<subseteq> set (possible (?gs1 ! k))"
         "\<forall>k<length gs. k < Suc idx \<or> Suc idx + length fbs \<le> k \<or> fbs ! (k - Suc idx) = []
                \<longrightarrow> gs' ! k = ?gs1 ! k"
      by auto
    have sub: "\<forall>k<length gs. set (possible (gs' ! k)) \<subseteq> set (possible (gs ! k))"
    proof (intro allI impI)
      fix k assume k: "k < length gs"
      show "set (possible (gs' ! k)) \<subseteq> set (possible (gs ! k))"
      proof (cases "k = idx")
        case True
        from r(4) idx have "set (possible (gs' ! idx)) \<subseteq> set (possible (?gs1 ! idx))"
          by blast
        with idx g(3) True show ?thesis by simp
      next
        case False
        from r(4) k have "set (possible (gs' ! k)) \<subseteq> set (possible (?gs1 ! k))"
          by blast
        with False show ?thesis by simp
      qed
    qed
    have same: "\<forall>k<length gs. k < idx \<or> idx + length (fb # fbs) \<le> k \<or> (fb # fbs) ! (k - idx) = []
                \<longrightarrow> gs' ! k = gs ! k"
    proof (intro allI impI)
      fix k assume k: "k < length gs"
        and c: "k < idx \<or> idx + length (fb # fbs) \<le> k \<or> (fb # fbs) ! (k - idx) = []"
      from c \<open>fb \<noteq> []\<close> have ne: "k \<noteq> idx" by auto
      have "k < Suc idx \<or> Suc idx + length fbs \<le> k \<or> fbs ! (k - Suc idx) = []"
      proof (cases "k < idx")
        case True
        then show ?thesis by simp
      next
        case False
        with ne have "(fb # fbs) ! (k - idx) = fbs ! (k - Suc idx)"
          by (simp add: nth_Cons')
        with c False show ?thesis by auto
      qed
      with r(5) k have "gs' ! k = ?gs1 ! k" by blast
      with ne show "gs' ! k = gs ! k" by simp
    qed
    from False idx g(1) r(1,2,3) sub same show ?thesis by simp
  qed
qed

lemma clean_game_idem: "clean_game (clean_game game) = clean_game game"
  by (auto simp: clean_game_def Let_def)

text \<open>
  C9: \<open>clean_constraints\<close> is idempotent. Cleaning a solver twice gives the
  same solver as cleaning it once, so in particular every game has the same
  \<open>present\<close> and \<open>absent\<close> sets after the second run as after the first.
\<close>

theorem C9_clean_constraints_idempotent:
  "clean_constraints (clean_constraints self) = clean_constraints self"
  by (simp add: clean_constraints_def clean_game_idem)

text \<open>
  An instance: the redundant letters A (recorded correct) and E, C of the absent
  set are removed by the first run, and the second run changes nothing.
\<close>

theorem C9_clean_constraints_idempotent_witness:
  "clean_constraints (clean_constraints
     \<lparr>answers = [''TRACE''], allowed = [''CRANE''],
      games = [\<lparr>possible = [''TRACE''], correct = ''?RA?E'',
                present = {CHR ''A'', CHR ''C''}, absent = {CHR ''N'', CHR ''E'', CHR ''C''}\<rparr>]\<rparr>) =
   \<lparr>answers = [''TRACE''], allowed = [''CRANE''],
    games = [\<lparr>possible = [''TRACE''], correct = ''?RA?E'',
              present = {CHR ''C''}, absent = {CHR ''N''}\<rparr>]\<rparr>"
  using C9_clean_constraints_idempotent
    [of "\<lparr>answers = [''TRACE''], allowed = [''CRANE''],
      games = [\<lparr>possible = [''TRACE''], correct = ''?RA?E'',
                present = {CHR ''A'', CHR ''C''}, absent = {CHR ''N'', CHR ''E'', CHR ''C''}\<rparr>]\<rparr>"]
  by (auto simp: clean_constraints_def clean_game_def Let_def)

text \<open>
  C3: for a well-formed game and a feedback of five pairs, \<open>update_game\<close>
  records the feedback without raising and replaces \<open>possible\<close> by exactly
  the candidates, in their order, that satisfy the four rules under the recorded
  constraints: (a) the word matches every recorded correct letter, (b) it holds
  every present letter, (c) it holds no absent letter except one that is also an
  entry of \<open>correct\<close> or a present letter, (d) at no position does it hold a
  present letter that is the recorded correct letter of that position.
\<close>

theorem C3_filter_rules:
  assumes "wf_game game0" and "length feedback = 5"
  shows "\<exists>game. record_feedback 0 feedback game0 = Inr game \<and>
           update_game game0 feedback =
             Inr (game\<lparr>possible := filter (keeps game) (possible game0)\<rparr>)"
  using update_game_eq[of game0 feedback] assms by auto

text \<open>
  An instance: after CRANE with feedback P C C A C, TRACE and CRATE are kept and
  BRAVE, which has no C, is dropped.
\<close>

theorem C3_filter_rules_witness:
  "wf_game \<lparr>possible = [''TRACE'', ''CRATE'', ''BRAVE''], correct = ''?????'',
             present = {}, absent = {}\<rparr> \<and>
   length [(CHR ''C'', CHR ''P''), (CHR ''R'', CHR ''C''), (CHR ''A'', CHR ''C''),
           (CHR ''N'', CHR ''A''), (CHR ''E'', CHR ''C'')] = 5 \<and>
   update_game \<lparr>possible = [''TRACE'', ''CRATE'', ''BRAVE''], correct = ''?????'',
                 present = {}, absent = {}\<rparr>
     [(CHR ''C'', CHR ''P''), (CHR ''R'', CHR ''C''), (CHR ''A'', CHR ''C''),
      (CHR ''N'', CHR ''A''), (CHR ''E'', CHR ''C'')] =
   Inr \<lparr>possible = [''TRACE'', ''CRATE''], correct = ''?RA?E'',
         present = {CHR ''C''}, absent = {CHR ''N''}\<rparr>"
  using C3_filter_rules
    [of "\<lparr>possible = [''TRACE'', ''CRATE'', ''BRAVE''], correct = ''?????'',
             present = {}, absent = {}\<rparr>"
        "[(CHR ''C'', CHR ''P''), (CHR ''R'', CHR ''C''), (CHR ''A'', CHR ''C''),
           (CHR ''N'', CHR ''A''), (CHR ''E'', CHR ''C'')]"]
  by (simp add: wf_game_def update_game_def word_valid_def missing_present_def
        holds_absent_def)

text \<open>
  C10: when, after the feedback is recorded, some position holds a recorded
  correct letter that is also a present letter, the filtering step leaves no
  candidate: on a word that has the letter at that position the loop over the
  word's letters (the guard against present letters at their correct position)
  answers \<open>False\<close>, and on a word that has another letter there the loop over
  \<open>correct\<close> answers \<open>False\<close>.
\<close>

theorem C10_contradictory_state_empties:
  assumes "wf_game game0" and "length feedback = 5"
    and "record_feedback 0 feedback game0 = Inr game"
    and "i < 5" and "correct game ! i \<noteq> CHR ''?''" and "correct game ! i \<in> present game"
  shows "update_game game0 feedback = Inr (game\<lparr>possible := []\<rparr>) \<and>
         (\<forall>w. length w = 5 \<longrightarrow>
            (w ! i = correct game ! i \<longrightarrow> check_positions game 0 w = Inr False) \<and>
            (w ! i \<noteq> correct game ! i \<longrightarrow> check_correct w 0 (correct game) = Inr False))"
proof -
  have "\<not> keeps game w" for w
    using assms(4,5,6) unfolding keeps_def rule_a_def rule_d_def by metis
  then have "filter (keeps game) (possible game0) = []"
    by simp
  with update_game_eq[of game0 feedback] assms(1,2,3)
  have 1: "update_game game0 feedback = Inr (game\<lparr>possible := []\<rparr>)"
    and len: "length (correct game) = 5"
    by auto
  have 2: "check_positions game 0 w = Inr False"
    if "length w = 5" and "w ! i = correct game ! i" for w
    using check_positions_eq[of 0 w game] that len assms(4,6) by auto
  have 3: "check_correct w 0 (correct game) = Inr False"
    if "length w = 5" and "w ! i \<noteq> correct game ! i" for w
    using check_correct_eq[of 0 "correct game" w] that len assms(4,5) by auto
  from 1 2 3 show ?thesis by blast
qed

text \<open>
  An instance: EERIE with feedback C P P A A records E as correct at the first
  position and as present; both candidates, ELDER among them, are dropped.
\<close>

theorem C10_contradictory_state_empties_witness:
  "update_game \<lparr>possible = [''ELDER'', ''EAGLE''], correct = ''?????'',
                 present = {}, absent = {}\<rparr>
     [(CHR ''E'', CHR ''C''), (CHR ''E'', CHR ''P''), (CHR ''R'', CHR ''P''),
      (CHR ''I'', CHR ''A''), (CHR ''E'', CHR ''A'')] =
   Inr \<lparr>possible = [], correct = ''E????'',
         present = {CHR ''E'', CHR ''R''}, absent = {CHR ''I'', CHR ''E''}\<rparr>"
  using C10_contradictory_state_empties
    [of "\<lparr>possible = [''ELDER'', ''EAGLE''], correct = ''?????'',
                 present = {}, absent = {}\<rparr>"
        "[(CHR ''E'', CHR ''C''), (CHR ''E'', CHR ''P''), (CHR ''R'', CHR ''P''),
      (CHR ''I'', CHR ''A''), (CHR ''E'', CHR ''A'')]"
        "\<lparr>possible = [''ELDER'', ''EAGLE''], correct = ''E????'',
         present = {CHR ''E'', CHR ''R''}, absent = {CHR ''I'', CHR ''E''}\<rparr>" 0]
  by (auto simp: wf_game_def)

text \<open>
  C4: for a solver whose games are well-formed and feedbacks that are each
  empty or five pairs long, \<open>update_games\<close> returns; every game's candidates
  afterwards are among its candidates before; and a game whose feedback is empty
  (or missing) is unchanged in all four fields.
\<close>

theorem C4_update_monotone:
  assumes "length feedbacks \<le> length (games self)"
    and "\<forall>fb\<in>set feedbacks. fb = [] \<or> length fb = 5"
    and "\<forall>g\<in>set (games self). wf_game g"
  shows "\<exists>self'. update_games self guess feedbacks = Inr self' \<and>
           length (games self') = length (games self) \<and>
           (\<forall>k<length (games self).
               set (possible (games self' ! k)) \<subseteq> set (possible (games self ! k))) \<and>
           (\<forall>k<length (games self). length feedbacks \<le> k \<or> feedbacks ! k = []
                \<longrightarrow> games self' ! k = games self ! k)"
proof -
  from assms(2) have "\<forall>fb\<in>set feedbacks. length fb \<le> 5" by auto
  with update_loop_ok[of 0 feedbacks "games self"] assms(1,3)
  obtain gs' where
    r: "update_loop 0 feedbacks (games self) = Inr gs'" "length gs' = length (games self)"
       "\<forall>k<length (games self). set (possible (gs' ! k)) \<subseteq> set (possible (games self ! k))"
       "\<forall>k<length (games self). k < 0 \<or> 0 + length feedbacks \<le> k \<or> feedbacks ! (k - 0) = []
            \<longrightarrow> gs' ! k = games self ! k"
    by auto
  then show ?thesis
    by (simp add: update_games_def)
qed

text \<open>
  An instance with the 16 initial games: the first game receives the feedback of
  CRANE, the other fifteen an empty one. The call returns, the first game keeps
  only words it had, and the second game is as it was.
\<close>

theorem C4_update_monotone_witness:
  "\<exists>self'.
     update_games
       \<lparr>answers = [''TRACE'', ''BRAVE''], allowed = [''CRANE''],
        games = init_games [''TRACE'', ''BRAVE'']\<rparr> ''CRANE''
       ([(CHR ''C'', CHR ''P''), (CHR ''R'', CHR ''C''), (CHR ''A'', CHR ''C''),
         (CHR ''N'', CHR ''A''), (CHR ''E'', CHR ''C'')] # replicate 15 []) = Inr self' \<and>
     set (possible (games self' ! 0)) \<subseteq> {''TRACE'', ''BRAVE''} \<and>
     games self' ! 1 =
       \<lparr>possible = [''TRACE'', ''BRAVE''], correct = ''?????'', present = {}, absent = {}\<rparr>"
proof -
  let ?S = "\<lparr>answers = [''TRACE'', ''BRAVE''], allowed = [''CRANE''],
        games = init_games [''TRACE'', ''BRAVE'']\<rparr>"
  let ?F = "[(CHR ''C'', CHR ''P''), (CHR ''R'', CHR ''C''), (CHR ''A'', CHR ''C''),
         (CHR ''N'', CHR ''A''), (CHR ''E'', CHR ''C'')] # replicate 15 []"
  have h1: "length ?F \<le> length (games ?S)"
    by (simp add: init_games_def)
  have h2: "\<forall>fb\<in>set ?F. fb = [] \<or> length fb = 5"
    by simp
  have h3: "\<forall>g\<in>set (games ?S). wf_game g"
    by (simp add: init_games_def wf_game_def)
  from C4_update_monotone[OF h1 h2 h3, of "''CRANE''"] obtain self' where
    r: "update_games ?S ''CRANE'' ?F = Inr self'"
       "\<forall>k<length (games ?S). set (possible (games self' ! k)) \<subseteq> set (possible (games ?S ! k))"
       "\<forall>k<length (games ?S). length ?F \<le> k \<or> ?F ! k = [] \<longrightarrow> games self' ! k = games ?S ! k"
    by blast
  have len: "length (games ?S) = 16" by (simp add: init_games_def)
  from r(2) len have "set (possible (games self' ! 0)) \<subseteq> set (possible (games ?S ! 0))"
    by simp
  moreover from r(3) len have "games self' ! 1 = games ?S ! 1"
    by simp
  ultimately show ?thesis using r(1)
    by (auto simp: init_games_def numeral_eq_Suc)
qed

section \<open>The memoized pattern\<close>

lemma cache_ok_empty: "cache_ok Map.empty"
  by (simp add: cache_ok_def)

lemma cached_fst: "cache_ok cache \<Longrightarrow> fst (get_pattern_cached cache guess target) = get_pattern guess target"
  by (auto simp: cache_ok_def get_pattern_cached_def Let_def split: option.splits sum.splits if_splits)

lemma cached_snd: "cache_ok cache \<Longrightarrow> cache_ok (snd (get_pattern_cached cache guess target))"
  by (auto simp: cache_ok_def get_pattern_cached_def Let_def split: option.splits sum.splits if_splits)

lemma cache_reachable_ok: "cache_reachable cache \<Longrightarrow> cache_ok cache"
  by (induction rule: cache_reachable.induct) (simp_all add: cache_ok_empty cached_snd)

text \<open>
  C8: at every cache the program can reach, the memoized computation returns
  what \<open>get_pattern\<close> returns for the same pair (the same pattern, or the same
  exception), and calling it again right away returns the same result.
\<close>

theorem C8_cached_agrees:
  assumes "cache_reachable cache"
  shows "fst (get_pattern_cached cache guess target) = get_pattern guess target \<and>
         fst (get_pattern_cached (snd (get_pattern_cached cache guess target)) guess target) =
           fst (get_pattern_cached cache guess target)"
proof -
  from assms have ok: "cache_ok cache" by (rule cache_reachable_ok)
  then have "cache_ok (snd (get_pattern_cached cache guess target))" by (rule cached_snd)
  then show ?thesis using ok by (simp add: cached_fst)
qed

text \<open>
  An instance: the second call for CRANE and TRACE is answered from the cache and
  is the pattern \<open>get_pattern\<close> computes.
\<close>

theorem C8_cached_agrees_witness:
  "fst (get_pattern_cached (snd (get_pattern_cached Map.empty ''CRANE'' ''TRACE''))
          ''CRANE'' ''TRACE'') = get_pattern ''CRANE'' ''TRACE'' \<and>
   fst (get_pattern_cached (snd (get_pattern_cached Map.empty ''CRANE'' ''TRACE''))
          ''CRANE'' ''TRACE'') = Inr [''P'', ''C'', ''C'', ''A'', ''C'']"
proof -
  have r: "cache_reachable (snd (get_pattern_cached Map.empty ''CRANE'' ''TRACE''))"
    by (intro cache_reachable.intros)
  have v: "get_pattern ''CRANE'' ''TRACE'' = Inr [''P'', ''C'', ''C'', ''A'', ''C'']"
    by (simp add: get_pattern_def numeral_eq_Suc)
  from C8_cached_agrees[OF r, of "''CRANE''" "''TRACE''"] v show ?thesis
    by simp
qed

section \<open>The entropy score\<close>

lemma first_pass_ok:
  "length pattern = n \<Longrightarrow> i + length zs \<le> n \<Longrightarrow>
   (case first_pass i zs (pattern, counts) of
      Inl e \<Rightarrow> False | Inr (p, c) \<Rightarrow> length p = n)"
proof (induction zs arbitrary: i pattern counts)
  case Nil
  then show ?case by simp
next
  case (Cons z zs)
  obtain g t where z: "z = (g, t)" by (cases z)
  from Cons.prems show ?case
    unfolding z by (simp add: Cons.IH)
qed

lemma second_pass_ok:
  "length pattern = n \<Longrightarrow> i + length gs \<le> n \<Longrightarrow>
   (case second_pass target i gs (pattern, counts) of
      Inl e \<Rightarrow> False | Inr (p, c) \<Rightarrow> length p = n)"
proof (induction gs arbitrary: i pattern counts)
  case Nil
  then show ?case by simp
next
  case (Cons g gs)
  from Cons.prems show ?case
    by (simp add: Cons.IH Let_def)
qed

lemma get_pattern_ok:
  assumes "length guess \<le> 5"
  shows "\<exists>p. get_pattern guess target = Inr p \<and> length p = 5"
proof -
  have len: "length (replicate 5 (''''::string)) = 5" by simp
  from assms have "0 + length (zip guess target) \<le> 5"
    by simp
  from first_pass_ok[OF len this, of "\<lambda>_. 0"] obtain p c where
    1: "first_pass 0 (zip guess target) (replicate 5 '''', \<lambda>_. 0) = Inr (p, c)" "length p = 5"
    by (auto split: sum.splits)
  from assms have "0 + length guess \<le> 5" by simp
  from second_pass_ok[OF 1(2) this, of target c] obtain p' c' where
    2: "second_pass target 0 guess (p, c) = Inr (p', c')" "length p' = 5"
    by (auto split: sum.splits)
  from 1 2 show ?thesis by (simp add: get_pattern_def)
qed

lemma get_pattern_cached_ok:
  assumes "length guess \<le> 5"
  shows "\<exists>p c. get_pattern_cached cache guess target = (Inr p, c)"
  using get_pattern_ok[OF assms, of target]
  by (auto simp: get_pattern_cached_def Let_def split: option.splits)

lemma sum_incr: "sum_list (map snd (incr pc p)) = Suc (sum_list (map snd pc))"
  by (induction pc p rule: incr.induct) auto

lemma pos_incr: "\<forall>n\<in>set (map snd pc). 1 \<le> n \<Longrightarrow> \<forall>n\<in>set (map snd (incr pc p)). 1 \<le> n"
  by (induction pc p rule: incr.induct) auto

lemma count_patterns_ok:
  assumes "length word \<le> 5"
  shows "\<forall>n\<in>set (map snd pc). 1 \<le> n \<Longrightarrow>
         \<exists>pc' c. count_patterns cache word ps pc = (Inr pc', c) \<and>
                 sum_list (map snd pc') = sum_list (map snd pc) + length ps \<and>
                 (\<forall>n\<in>set (map snd pc'). 1 \<le> n)"
proof (induction ps arbitrary: cache pc)
  case Nil
  then show ?case by simp
next
  case (Cons p ps)
  from get_pattern_cached_ok[OF assms, of cache p] obtain pat c1 where
    g: "get_pattern_cached cache word p = (Inr pat, c1)" by blast
  from Cons.IH[OF pos_incr[OF Cons.prems], of c1 pat] g show ?case
    by (auto simp: sum_incr)
qed

subsection \<open>Exact arithmetic has the three groups of properties\<close>

lemma exact_sign: "sign_arith exact_arith n"
proof -
  have "0 \<le> - (real n / real tot) * log 2 (real n / real tot)"
    if "1 \<le> n" and "n \<le> tot" for n tot :: nat
  proof -
    define x where "x = real n / real tot"
    from that have x: "0 < x" "x \<le> 1" by (simp_all add: x_def)
    then have "log 2 x \<le> 0" by simp
    with x(1) have "x * log 2 x \<le> 0" by (simp add: mult_nonneg_nonpos)
    then have "0 \<le> - x * log 2 x" by simp
    then show ?thesis by (simp only: x_def)
  qed
  then show ?thesis
    by (simp add: sign_arith_def exact_arith_def entropy_term_def sum_list_nonneg)
qed

lemma exact_zero: "zero_arith exact_arith"
proof -
  have "(\<forall>x\<in>set xs. x = 0) \<longrightarrow> sum_list xs = (0::real)" for xs
    by (induction xs) auto
  then show ?thesis
    by (simp add: zero_arith_def exact_arith_def entropy_term_def)
qed

lemma exact_order: "order_arith exact_arith"
  by (auto simp: order_arith_def exact_arith_def scored_def)

subsection \<open>Sign and zero of the score\<close>

lemma length_le_counts:
  "\<forall>n\<in>set (map snd pc). 1 \<le> n \<Longrightarrow> length pc \<le> sum_list (map snd pc)"
  by (induction pc) auto

lemma entropy_sum_nonneg:
  assumes "sign_arith ar m"
    and "\<forall>n\<in>set (map snd pc). 1 \<le> n" and "sum_list (map snd pc) = tot"
    and "tot \<le> m"
  shows "f_ge ar (f_sum ar (map (\<lambda>count. entropy_term ar count tot) (map snd pc))) (f_zero ar)"
proof -
  have "f_ge ar (entropy_term ar n tot) (f_zero ar)" if "n \<in> set (map snd pc)" for n
  proof -
    from assms(2) that have 1: "1 \<le> n" by blast
    from that have "n \<le> sum_list (map snd pc)" by (simp add: member_le_sum_list)
    with assms(3) have "n \<le> tot" by simp
    with 1 assms(1,4) show ?thesis unfolding sign_arith_def by blast
  qed
  then have "\<forall>x\<in>set (map (\<lambda>count. entropy_term ar count tot) (map snd pc)).
               f_ge ar x (f_zero ar)"
    by auto
  moreover from length_le_counts[OF assms(2)] assms(3,4)
  have "length (map (\<lambda>count. entropy_term ar count tot) (map snd pc)) \<le> m"
    by simp
  ultimately show ?thesis using assms(1) unfolding sign_arith_def by blast
qed

lemma entropy_loop_ok:
  assumes "length word \<le> 5"
  shows "\<exists>v c. entropy_loop ar cache word states acc = (Inr v, c) \<and>
               (sign_arith ar n \<longrightarrow> (\<forall>s\<in>set states. length (possible s) \<le> n) \<longrightarrow>
                  f_ge ar acc (f_zero ar) \<longrightarrow> f_ge ar v (f_zero ar)) \<and>
               (zero_arith ar \<longrightarrow> (\<forall>s\<in>set states. length (possible s) \<le> 1) \<longrightarrow>
                  f_eq ar acc (f_zero ar) \<longrightarrow> f_eq ar v (f_zero ar))"
proof (induction states arbitrary: cache acc)
  case Nil
  then show ?case by simp
next
  case (Cons s states)
  show ?case
  proof (cases "possible s = []")
    case True
    with Cons.IH[of cache acc] show ?thesis by auto
  next
    case False
    from count_patterns_ok[OF assms, of "[]" cache "possible s"] obtain pc c1 where
      cp: "count_patterns cache word (possible s) [] = (Inr pc, c1)"
          "sum_list (map snd pc) = length (possible s)"
          "\<forall>n\<in>set (map snd pc). 1 \<le> n"
      by auto
    let ?e = "f_sum ar (map (\<lambda>count. entropy_term ar count (length (possible s))) (map snd pc))"
    let ?acc = "f_add ar acc ?e"
    from Cons.IH[of c1 ?acc] obtain v c where
      r: "entropy_loop ar c1 word states ?acc = (Inr v, c)"
         "sign_arith ar n \<longrightarrow> (\<forall>s\<in>set states. length (possible s) \<le> n) \<longrightarrow>
            f_ge ar ?acc (f_zero ar) \<longrightarrow> f_ge ar v (f_zero ar)"
         "zero_arith ar \<longrightarrow> (\<forall>s\<in>set states. length (possible s) \<le> 1) \<longrightarrow>
            f_eq ar ?acc (f_zero ar) \<longrightarrow> f_eq ar v (f_zero ar)"
      by blast
    from False cp(1) r(1) have run: "entropy_loop ar cache word (s # states) acc = (Inr v, c)"
      by (simp add: Let_def)
    have sign: "f_ge ar v (f_zero ar)"
      if sa: "sign_arith ar n" and le: "\<forall>s\<in>set (s # states). length (possible s) \<le> n"
        and acc: "f_ge ar acc (f_zero ar)"
    proof -
      from le have "length (possible s) \<le> n" by simp
      from entropy_sum_nonneg[OF sa cp(3,2) this] have "f_ge ar ?e (f_zero ar)" .
      with sa acc have "f_ge ar ?acc (f_zero ar)" unfolding sign_arith_def by blast
      with r(2) sa le show ?thesis by simp
    qed
    have zero: "f_eq ar v (f_zero ar)"
      if za: "zero_arith ar" and one: "\<forall>s\<in>set (s # states). length (possible s) \<le> 1"
        and acc: "f_eq ar acc (f_zero ar)"
    proof -
      from one False obtain p where p: "possible s = [p]"
        by (cases "possible s") auto
      from get_pattern_cached_ok[OF assms, of cache p] obtain pat c2 where
        "get_pattern_cached cache word p = (Inr pat, c2)" by blast
      with cp(1) p have "pc = [(pat, 1)]" by simp
      with p have e: "?e = f_sum ar [entropy_term ar 1 1]" by simp
      from za have "\<forall>x\<in>set [entropy_term ar 1 1]. f_eq ar x (f_zero ar)"
        unfolding zero_arith_def by simp
      with za have "f_eq ar (f_sum ar [entropy_term ar 1 1]) (f_zero ar)"
        unfolding zero_arith_def by blast
      with e have "f_eq ar ?e (f_zero ar)" by simp
      with za acc have "f_eq ar ?acc (f_zero ar)" unfolding zero_arith_def by blast
      with r(3) za one show ?thesis by simp
    qed
    from run sign zero show ?thesis by blast
  qed
qed

lemma entropy_loop_skip:
  "entropy_loop ar cache word (filter (\<lambda>s. possible s \<noteq> []) states) acc =
   entropy_loop ar cache word states acc"
  by (induction states arbitrary: cache acc) (auto split: prod.splits sum.splits)



section \<open>Choosing the guess\<close>

lemma calculate_entropy_ok:
  assumes "length word \<le> 5"
  shows "\<exists>v c. calculate_entropy ar cache word states = (Inr v, c) \<and>
               (sign_arith ar n \<longrightarrow> (\<forall>s\<in>set states. length (possible s) \<le> n) \<longrightarrow>
                  f_ge ar v (f_zero ar))"
proof -
  from entropy_loop_ok[OF assms, of ar cache states "f_zero ar" n] obtain v c where
    r: "entropy_loop ar cache word states (f_zero ar) = (Inr v, c)"
       "sign_arith ar n \<longrightarrow> (\<forall>s\<in>set states. length (possible s) \<le> n) \<longrightarrow>
          f_ge ar (f_zero ar) (f_zero ar) \<longrightarrow> f_ge ar v (f_zero ar)"
    by blast
  from r(2) have "sign_arith ar n \<longrightarrow> (\<forall>s\<in>set states. length (possible s) \<le> n) \<longrightarrow>
      f_ge ar v (f_zero ar)"
    unfolding sign_arith_def by blast
  with r(1) show ?thesis by (simp add: calculate_entropy_def)
qed

lemma best_loop_some:
  assumes "sign_arith ar n" and "\<forall>s\<in>set active. length (possible s) \<le> n"
    and "\<forall>a. f_ge ar a (f_zero ar) \<longrightarrow> f_gt ar a (f_neg ar (f_inf ar))"
    and "\<forall>w\<in>set ws. length w \<le> 5"
  shows "\<exists>r c. best_loop ar cache active ws bw bs = (Inr r, c) \<and>
               (bw \<noteq> None \<or> (ws \<noteq> [] \<and> bs = f_neg ar (f_inf ar)) \<longrightarrow> r \<noteq> None)"
  using assms(4)
proof (induction ws arbitrary: cache bw bs)
  case Nil
  then show ?case by simp
next
  case (Cons w ws)
  from Cons.prems have "length w \<le> 5" by simp
  from calculate_entropy_ok[OF this, of ar cache active n] assms(1,2) obtain v c1 where
    v: "calculate_entropy ar cache w active = (Inr v, c1)" and nn: "f_ge ar v (f_zero ar)"
    by blast
  from nn assms(3) have inf: "f_gt ar v (f_neg ar (f_inf ar))" by blast
  from Cons.prems have ws: "\<forall>w\<in>set ws. length w \<le> 5" by simp
  show ?case
  proof (cases "f_gt ar v bs")
    case True
    from Cons.IH[OF ws, of c1 "Some w" v] v True show ?thesis by auto
  next
    case False
    with inf have "bs \<noteq> f_neg ar (f_inf ar)" by auto
    with Cons.IH[OF ws, of c1 bw bs] v False show ?thesis by auto
  qed
qed

text \<open>
  C5: with a non-empty list of allowed guesses (of at most five letters each
  in the scanned prefix), and numbers that have the sign properties up to the
  number of candidates of each game and put what is at least 0 above
  \<open>-float('inf')\<close>, \<open>get_best_guess\<close> returns \<open>None\<close> exactly
  when every game has an empty candidate list, and returns some word whenever a
  game has candidates. The statement holds for any number of games, the 16 of
  the solver included, and for any cache.
\<close>

theorem C5_none_iff_all_solved:
  assumes "allowed self \<noteq> []"
    and "\<forall>w\<in>set (take 2316 (allowed self)). length w \<le> 5"
    and "sign_arith ar n" and "\<forall>g\<in>set (games self). length (possible g) \<le> n"
    and "\<forall>a. f_ge ar a (f_zero ar) \<longrightarrow> f_gt ar a (f_neg ar (f_inf ar))"
  shows "(fst (get_best_guess ar cache self) = Inr None \<longleftrightarrow>
            (\<forall>g\<in>set (games self). possible g = [])) \<and>
         ((\<exists>g\<in>set (games self). possible g \<noteq> []) \<longrightarrow>
            (\<exists>w. fst (get_best_guess ar cache self) = Inr (Some w)))"
proof (cases "filter (\<lambda>g. possible g \<noteq> []) (games self) = []")
  case True
  then have "\<forall>g\<in>set (games self). possible g = []"
    by (simp add: filter_empty_conv)
  with True show ?thesis
    by (simp add: get_best_guess_def)
next
  case False
  then have ex: "\<exists>g\<in>set (games self). possible g \<noteq> []"
    by (simp add: filter_empty_conv)
  from assms(1) have ne: "take 2316 (allowed self) \<noteq> []"
    by (cases "allowed self") simp_all
  from assms(4) have le: "\<forall>s\<in>set (filter (\<lambda>g. possible g \<noteq> []) (games self)).
      length (possible s) \<le> n" by simp
  from best_loop_some[OF assms(3) le assms(5,2), of cache None "f_neg ar (f_inf ar)"]
    ne obtain r c where
    r: "best_loop ar cache (filter (\<lambda>g. possible g \<noteq> []) (games self))
          (take 2316 (allowed self)) None (f_neg ar (f_inf ar)) = (Inr r, c)" "r \<noteq> None"
    by auto
  from r(2) obtain w where "r = Some w" by (cases r) auto
  with r(1) False have "fst (get_best_guess ar cache self) = Inr (Some w)"
    by (simp add: get_best_guess_def)
  with ex show ?thesis by auto
qed

text \<open>
  An instance in exact arithmetic with the 16 initial games over the answer
  TRACE: a word is returned; and with 16 games without candidates the result is
  \<open>None\<close>.
\<close>

theorem C5_none_iff_all_solved_witness:
  "(\<exists>w. fst (get_best_guess exact_arith Map.empty
            \<lparr>answers = [''TRACE''], allowed = [''CRANE'', ''TRACE''],
             games = init_games [''TRACE'']\<rparr>) = Inr (Some w)) \<and>
   fst (get_best_guess exact_arith Map.empty
          \<lparr>answers = [''TRACE''], allowed = [''CRANE'', ''TRACE''],
           games = init_games []\<rparr>) = Inr None"
proof -
  let ?S = "\<lparr>answers = [''TRACE''], allowed = [''CRANE'', ''TRACE''],
             games = init_games [''TRACE'']\<rparr>"
  let ?T = "\<lparr>answers = [''TRACE''], allowed = [''CRANE'', ''TRACE''],
           games = init_games []\<rparr>"
  have a: "allowed ?S \<noteq> []" "allowed ?T \<noteq> []" by simp_all
  have b: "\<forall>w\<in>set (take 2316 (allowed ?S)). length w \<le> 5"
          "\<forall>w\<in>set (take 2316 (allowed ?T)). length w \<le> 5" by simp_all
  have c: "\<exists>g\<in>set (games ?S). possible g \<noteq> []"
    by (simp add: init_games_def)
  have d: "\<forall>g\<in>set (games ?T). possible g = []"
    by (simp add: init_games_def)
  have e: "\<forall>a. f_ge exact_arith a (f_zero exact_arith)
             \<longrightarrow> f_gt exact_arith a (f_neg exact_arith (f_inf exact_arith))"
    by (simp add: exact_arith_def)
  have f: "\<forall>g\<in>set (games ?S). length (possible g) \<le> 1"
          "\<forall>g\<in>set (games ?T). length (possible g) \<le> 1"
    by (simp_all add: init_games_def)
  from C5_none_iff_all_solved[OF a(1) b(1) exact_sign f(1) e, of Map.empty] c
  have "\<exists>w. fst (get_best_guess exact_arith Map.empty ?S) = Inr (Some w)" by blast
  moreover from C5_none_iff_all_solved[OF a(2) b(2) exact_sign f(2) e, of Map.empty] d
  have "fst (get_best_guess exact_arith Map.empty ?T) = Inr None" by blast
  ultimately show ?thesis by blast
qed

lemma cached_pair:
  assumes "cache_ok cache"
  shows "\<exists>c. get_pattern_cached cache guess target = (get_pattern guess target, c) \<and> cache_ok c"
  using cached_fst[OF assms, of guess target] cached_snd[OF assms, of guess target]
  by (metis prod.collapse)

lemma count_patterns_indep:
  assumes "cache_ok c1" and "cache_ok c2"
  shows "fst (count_patterns c1 word ps pc) = fst (count_patterns c2 word ps pc) \<and>
         cache_ok (snd (count_patterns c1 word ps pc))"
  using assms
proof (induction ps arbitrary: c1 c2 pc)
  case Nil
  then show ?case by simp
next
  case (Cons p ps)
  from cached_pair[OF Cons.prems(1), of word p] obtain c1' where
    1: "get_pattern_cached c1 word p = (get_pattern word p, c1')" "cache_ok c1'" by blast
  from cached_pair[OF Cons.prems(2), of word p] obtain c2' where
    2: "get_pattern_cached c2 word p = (get_pattern word p, c2')" "cache_ok c2'" by blast
  show ?case
  proof (cases "get_pattern word p")
    case (Inl e)
    with 1 2 show ?thesis by simp
  next
    case (Inr pat)
    with 1 2 Cons.IH[OF 1(2) 2(2), of "incr pc pat"] show ?thesis by simp
  qed
qed

lemma entropy_loop_indep:
  assumes "cache_ok c1" and "cache_ok c2"
  shows "fst (entropy_loop ar c1 word states acc) = fst (entropy_loop ar c2 word states acc) \<and>
         cache_ok (snd (entropy_loop ar c1 word states acc))"
  using assms
proof (induction states arbitrary: c1 c2 acc)
  case Nil
  then show ?case by simp
next
  case (Cons s states)
  show ?case
  proof (cases "possible s = []")
    case True
    with Cons.IH[OF Cons.prems, of acc] show ?thesis by simp
  next
    case False
    obtain r1 c1' where 1: "count_patterns c1 word (possible s) [] = (r1, c1')"
      by (cases "count_patterns c1 word (possible s) []")
    obtain r2 c2' where 2: "count_patterns c2 word (possible s) [] = (r2, c2')"
      by (cases "count_patterns c2 word (possible s) []")
    from count_patterns_indep[OF Cons.prems, of word "possible s" "[]"] 1 2
    have eq: "r1 = r2" and ok1: "cache_ok c1'" by simp_all
    from count_patterns_indep[OF Cons.prems(2) Cons.prems(1), of word "possible s" "[]"] 2
    have ok2: "cache_ok c2'" by simp
    from 2 eq have 3: "count_patterns c2 word (possible s) [] = (r1, c2')" by simp
    show ?thesis
    proof (cases r1)
      case (Inl e)
      from 1 3 ok1 False show ?thesis unfolding Inl by simp
    next
      case (Inr pc)
      from 1 3 False
        Cons.IH[OF ok1 ok2, of "f_add ar acc
          (f_sum ar (map (\<lambda>count. entropy_term ar count (length (possible s))) (map snd pc)))"]
      show ?thesis unfolding Inr by (simp add: Let_def)
    qed
  qed
qed

lemma calculate_entropy_indep:
  assumes "cache_ok c1" and "cache_ok c2"
  shows "fst (calculate_entropy ar c1 word states) = fst (calculate_entropy ar c2 word states) \<and>
         cache_ok (snd (calculate_entropy ar c1 word states))"
  using entropy_loop_indep[OF assms] by (simp add: calculate_entropy_def)

lemma gt_irrefl: "order_arith ar \<Longrightarrow> scored ar a \<Longrightarrow> \<not> f_gt ar a a"
  unfolding order_arith_def by blast

lemma gt_trans:
  "order_arith ar \<Longrightarrow> scored ar a \<Longrightarrow> scored ar b \<Longrightarrow> scored ar c \<Longrightarrow>
   f_gt ar a b \<Longrightarrow> f_gt ar b c \<Longrightarrow> f_gt ar a c"
  unfolding order_arith_def by blast

lemma gt_split:
  "order_arith ar \<Longrightarrow> scored ar a \<Longrightarrow> scored ar b \<Longrightarrow> scored ar c \<Longrightarrow>
   f_gt ar a c \<Longrightarrow> f_gt ar a b \<or> f_gt ar b c"
  unfolding order_arith_def by blast

lemma best_loop_argmax:
  assumes oa: "order_arith ar"
    and "\<And>w c. w \<in> set ws \<Longrightarrow> cache_ok c \<Longrightarrow>
             \<exists>c'. calculate_entropy ar c w active = (Inr (sc w), c') \<and> cache_ok c'"
    and "\<And>w. w \<in> set ws \<Longrightarrow> scored ar (sc w)"
    and "scored ar bs"
    and "cache_ok cache"
  shows "\<exists>r c'. best_loop ar cache active ws bw bs = (Inr r, c') \<and> cache_ok c' \<and>
           ((r = bw \<and> (\<forall>j<length ws. \<not> f_gt ar (sc (ws ! j)) bs)) \<or>
            (\<exists>k<length ws. r = Some (ws ! k) \<and> f_gt ar (sc (ws ! k)) bs \<and>
               (\<forall>j<length ws. \<not> f_gt ar (sc (ws ! j)) (sc (ws ! k))) \<and>
               (\<forall>j<k. f_gt ar (sc (ws ! k)) (sc (ws ! j)))))"
  using assms(2-)
proof (induction ws arbitrary: cache bw bs)
  case Nil
  then show ?case by simp
next
  case (Cons w ws)
  from Cons.prems(1)[of w cache] Cons.prems(4) obtain c1 where
    v: "calculate_entropy ar cache w active = (Inr (sc w), c1)" and ok1: "cache_ok c1"
    by auto
  have step: "\<And>w' c. w' \<in> set ws \<Longrightarrow> cache_ok c \<Longrightarrow>
             \<exists>c'. calculate_entropy ar c w' active = (Inr (sc w'), c') \<and> cache_ok c'"
    using Cons.prems(1) by simp
  have sws: "\<And>w'. w' \<in> set ws \<Longrightarrow> scored ar (sc w')"
    using Cons.prems(2) by simp
  have sw: "scored ar (sc w)" using Cons.prems(2) by simp
  have sj: "scored ar (sc (ws ! j))" if "j < length ws" for j
    using sws that by simp
  note sb = Cons.prems(3)
  show ?case
  proof (cases "f_gt ar (sc w) bs")
    case True
    from Cons.IH[OF step sws sw ok1, of "Some w"] obtain r c' where
      r: "best_loop ar c1 active ws (Some w) (sc w) = (Inr r, c')" "cache_ok c'"
      and alt: "(r = Some w \<and> (\<forall>j<length ws. \<not> f_gt ar (sc (ws ! j)) (sc w))) \<or>
            (\<exists>k<length ws. r = Some (ws ! k) \<and> f_gt ar (sc (ws ! k)) (sc w) \<and>
               (\<forall>j<length ws. \<not> f_gt ar (sc (ws ! j)) (sc (ws ! k))) \<and>
               (\<forall>j<k. f_gt ar (sc (ws ! k)) (sc (ws ! j))))"
      by blast
    have run: "best_loop ar cache active (w # ws) bw bs = (Inr r, c')"
      using v True r(1) by simp
    from alt have "\<exists>k<length (w # ws). r = Some ((w # ws) ! k) \<and>
               f_gt ar (sc ((w # ws) ! k)) bs \<and>
               (\<forall>j<length (w # ws). \<not> f_gt ar (sc ((w # ws) ! j)) (sc ((w # ws) ! k))) \<and>
               (\<forall>j<k. f_gt ar (sc ((w # ws) ! k)) (sc ((w # ws) ! j)))"
    proof
      assume a: "r = Some w \<and> (\<forall>j<length ws. \<not> f_gt ar (sc (ws ! j)) (sc w))"
      from gt_irrefl[OF oa sw] have "\<not> f_gt ar (sc w) (sc w)" .
      with a True show ?thesis
        by (intro exI[of _ 0]) (simp add: all_less_Suc_shift)
    next
      assume "\<exists>k<length ws. r = Some (ws ! k) \<and> f_gt ar (sc (ws ! k)) (sc w) \<and>
               (\<forall>j<length ws. \<not> f_gt ar (sc (ws ! j)) (sc (ws ! k))) \<and>
               (\<forall>j<k. f_gt ar (sc (ws ! k)) (sc (ws ! j)))"
      then obtain k where k: "k < length ws" "r = Some (ws ! k)" "f_gt ar (sc (ws ! k)) (sc w)"
        "\<forall>j<length ws. \<not> f_gt ar (sc (ws ! j)) (sc (ws ! k))"
        "\<forall>j<k. f_gt ar (sc (ws ! k)) (sc (ws ! j))"
        by auto
      from gt_trans[OF oa sj[OF k(1)] sw sb k(3) True]
      have 1: "f_gt ar (sc (ws ! k)) bs" .
      have 2: "\<not> f_gt ar (sc w) (sc (ws ! k))"
      proof
        assume "f_gt ar (sc w) (sc (ws ! k))"
        from gt_trans[OF oa sw sj[OF k(1)] sw this k(3)] gt_irrefl[OF oa sw]
        show False by blast
      qed
      from k 1 2 show ?thesis
        by (intro exI[of _ "Suc k"]) (simp add: all_less_Suc_shift)
    qed
    with run r(2) show ?thesis by blast
  next
    case False
    from Cons.IH[OF step sws sb ok1, of bw] obtain r c' where
      r: "best_loop ar c1 active ws bw bs = (Inr r, c')" "cache_ok c'"
      and alt: "(r = bw \<and> (\<forall>j<length ws. \<not> f_gt ar (sc (ws ! j)) bs)) \<or>
            (\<exists>k<length ws. r = Some (ws ! k) \<and> f_gt ar (sc (ws ! k)) bs \<and>
               (\<forall>j<length ws. \<not> f_gt ar (sc (ws ! j)) (sc (ws ! k))) \<and>
               (\<forall>j<k. f_gt ar (sc (ws ! k)) (sc (ws ! j))))"
      by blast
    have run: "best_loop ar cache active (w # ws) bw bs = (Inr r, c')"
      using v False r(1) by simp
    from alt have "(r = bw \<and> (\<forall>j<length (w # ws). \<not> f_gt ar (sc ((w # ws) ! j)) bs)) \<or>
            (\<exists>k<length (w # ws). r = Some ((w # ws) ! k) \<and>
               f_gt ar (sc ((w # ws) ! k)) bs \<and>
               (\<forall>j<length (w # ws). \<not> f_gt ar (sc ((w # ws) ! j)) (sc ((w # ws) ! k))) \<and>
               (\<forall>j<k. f_gt ar (sc ((w # ws) ! k)) (sc ((w # ws) ! j))))"
    proof
      assume "r = bw \<and> (\<forall>j<length ws. \<not> f_gt ar (sc (ws ! j)) bs)"
      with False show ?thesis by (simp add: all_less_Suc_shift)
    next
      assume "\<exists>k<length ws. r = Some (ws ! k) \<and> f_gt ar (sc (ws ! k)) bs \<and>
               (\<forall>j<length ws. \<not> f_gt ar (sc (ws ! j)) (sc (ws ! k))) \<and>
               (\<forall>j<k. f_gt ar (sc (ws ! k)) (sc (ws ! j)))"
      then obtain k where k: "k < length ws" "r = Some (ws ! k)" "f_gt ar (sc (ws ! k)) bs"
        "\<forall>j<length ws. \<not> f_gt ar (sc (ws ! j)) (sc (ws ! k))"
        "\<forall>j<k. f_gt ar (sc (ws ! k)) (sc (ws ! j))"
        by auto
      from gt_split[OF oa sj[OF k(1)] sw sb k(3)] False
      have 1: "f_gt ar (sc (ws ! k)) (sc w)" by blast
      have 2: "\<not> f_gt ar (sc w) (sc (ws ! k))"
      proof
        assume "f_gt ar (sc w) (sc (ws ! k))"
        from gt_trans[OF oa sw sj[OF k(1)] sb this k(3)] False
        show False by blast
      qed
      from k 1 2 have "\<exists>k<length (w # ws). r = Some ((w # ws) ! k) \<and>
               f_gt ar (sc ((w # ws) ! k)) bs \<and>
               (\<forall>j<length (w # ws). \<not> f_gt ar (sc ((w # ws) ! j)) (sc ((w # ws) ! k))) \<and>
               (\<forall>j<k. f_gt ar (sc ((w # ws) ! k)) (sc ((w # ws) ! j)))"
        by (intro exI[of _ "Suc k"]) (simp add: all_less_Suc_shift)
      then show ?thesis by blast
    qed
    with run r(2) show ?thesis by blast
  qed
qed

text \<open>
  C6: with numbers that have the order properties and the sign properties up
  to the number of candidates of each game, from a reachable
  cache, with a game that has candidates and a non-empty list of allowed guesses
  (of at most five letters each in the scanned prefix): every word of the first
  2316 allowed guesses has one score \<open>sc w\<close>, the value \<open>calculate_entropy\<close>
  returns for it against the active games at any reachable cache;
  \<open>get_best_guess\<close> returns the word at some index \<open>k\<close> of that prefix such
  that no word of the prefix has a score greater than the score of word \<open>k\<close>,
  and the score of word \<open>k\<close> is greater than the score of every earlier word;
  and the words after the prefix play no part. The scores are the numbers the
  program computes, compared by its own \<open>>\<close>.
\<close>

theorem C6_first_maximum_of_prefix:
  assumes "sign_arith ar n" and "\<forall>g\<in>set (games self). length (possible g) \<le> n"
    and "order_arith ar"
    and "cache_reachable cache"
    and "\<exists>g\<in>set (games self). possible g \<noteq> []"
    and "allowed self \<noteq> []"
    and "\<forall>w\<in>set (take 2316 (allowed self)). length w \<le> 5"
  shows "\<exists>k sc. k < min 2316 (length (allowed self)) \<and>
           fst (get_best_guess ar cache self) = Inr (Some (allowed self ! k)) \<and>
           (\<forall>c w. cache_reachable c \<longrightarrow> w \<in> set (take 2316 (allowed self)) \<longrightarrow>
              fst (calculate_entropy ar c w (filter (\<lambda>g. possible g \<noteq> []) (games self))) =
                Inr (sc w)) \<and>
           (\<forall>j<min 2316 (length (allowed self)).
              \<not> f_gt ar (sc (allowed self ! j)) (sc (allowed self ! k))) \<and>
           (\<forall>j<k. f_gt ar (sc (allowed self ! k)) (sc (allowed self ! j))) \<and>
           get_best_guess ar cache (self\<lparr>allowed := take 2316 (allowed self)\<rparr>) =
             get_best_guess ar cache self"
proof -
  let ?active = "filter (\<lambda>g. possible g \<noteq> []) (games self)"
  let ?ws = "take 2316 (allowed self)"
  let ?ninf = "f_neg ar (f_inf ar)"
  define sc where "sc w = projr (fst (calculate_entropy ar Map.empty w ?active))" for w
  from assms(2) have le: "\<forall>s\<in>set ?active. length (possible s) \<le> n" by simp
  have val: "fst (calculate_entropy ar Map.empty w ?active) = Inr (sc w) \<and>
             f_ge ar (sc w) (f_zero ar)" if "w \<in> set ?ws" for w
  proof -
    from that assms(7) have "length w \<le> 5" by blast
    from calculate_entropy_ok[OF this, of ar Map.empty ?active n] assms(1) le
    show ?thesis by (auto simp: sc_def)
  qed
  have sc: "\<exists>c'. calculate_entropy ar c w ?active = (Inr (sc w), c') \<and> cache_ok c'"
    if "w \<in> set ?ws" and "cache_ok c" for w c
  proof -
    from val[OF that(1)] calculate_entropy_indep[OF that(2) cache_ok_empty, of ar w ?active]
    have "fst (calculate_entropy ar c w ?active) = Inr (sc w)"
      and "cache_ok (snd (calculate_entropy ar c w ?active))" by simp_all
    then show ?thesis by (metis prod.collapse)
  qed
  have scd: "scored ar (sc w)" if "w \<in> set ?ws" for w
    using val[OF that] by (simp add: scored_def)
  have sb: "scored ar ?ninf" by (simp add: scored_def)
  from assms(4) have ok: "cache_ok cache" by (rule cache_reachable_ok)
  from assms(5) have act: "?active \<noteq> []" by (simp add: filter_empty_conv)
  from assms(6) have ne: "0 < length ?ws" by (cases "allowed self") simp_all
  then have "?ws ! 0 \<in> set ?ws" by (rule nth_mem)
  from val[OF this] assms(3) have first: "f_gt ar (sc (?ws ! 0)) ?ninf"
    unfolding order_arith_def by blast
  from best_loop_argmax[of ar ?ws ?active sc ?ninf cache None, OF assms(3) sc scd sb ok]
  obtain r c' where
    run: "best_loop ar cache ?active ?ws None ?ninf = (Inr r, c')"
    and alt: "(r = None \<and> (\<forall>j<length ?ws. \<not> f_gt ar (sc (?ws ! j)) ?ninf)) \<or>
            (\<exists>k<length ?ws. r = Some (?ws ! k) \<and> f_gt ar (sc (?ws ! k)) ?ninf \<and>
               (\<forall>j<length ?ws. \<not> f_gt ar (sc (?ws ! j)) (sc (?ws ! k))) \<and>
               (\<forall>j<k. f_gt ar (sc (?ws ! k)) (sc (?ws ! j))))"
    by blast
  from alt ne first obtain k where k: "k < length ?ws" "r = Some (?ws ! k)"
    "\<forall>j<length ?ws. \<not> f_gt ar (sc (?ws ! j)) (sc (?ws ! k))"
    "\<forall>j<k. f_gt ar (sc (?ws ! k)) (sc (?ws ! j))"
    by blast
  from k(1) have k': "k < min 2316 (length (allowed self))" by simp
  have 1: "fst (get_best_guess ar cache self) = Inr (Some (allowed self ! k))"
    using run act k(1,2) by (simp add: get_best_guess_def)
  have 2: "\<forall>c w. cache_reachable c \<longrightarrow> w \<in> set ?ws \<longrightarrow>
              fst (calculate_entropy ar c w ?active) = Inr (sc w)"
  proof (intro allI impI)
    fix c w assume "cache_reachable c" and w: "w \<in> set ?ws"
    then have "cache_ok c" by (simp add: cache_reachable_ok)
    from sc[OF w this] show "fst (calculate_entropy ar c w ?active) = Inr (sc w)" by auto
  qed
  have 3: "\<forall>j<min 2316 (length (allowed self)).
             \<not> f_gt ar (sc (allowed self ! j)) (sc (allowed self ! k))"
    using k(1,3) by simp
  have 4: "\<forall>j<k. f_gt ar (sc (allowed self ! k)) (sc (allowed self ! j))"
    using k(1,4) by simp
  have 5: "get_best_guess ar cache (self\<lparr>allowed := take 2316 (allowed self)\<rparr>) =
             get_best_guess ar cache self"
    by (simp add: get_best_guess_def Let_def)
  from k' 1 2 3 4 5 show ?thesis by blast
qed

text \<open>
  An instance in exact arithmetic: one board with the candidates TRACE and
  BRAVE. ZZZZZ scores 0, TRACE and CRANE score 1 each; TRACE replaces ZZZZZ, and
  CRANE, whose score is not greater, does not replace TRACE.
\<close>

theorem C6_first_maximum_of_prefix_witness:
  "fst (get_best_guess exact_arith Map.empty
     \<lparr>answers = [''TRACE'', ''BRAVE''], allowed = [''ZZZZZ'', ''TRACE'', ''CRANE''],
      games = [\<lparr>possible = [''TRACE'', ''BRAVE''], correct = ''?????'',
                present = {}, absent = {}\<rparr>]\<rparr>) =
   Inr (Some ''TRACE'')"
proof -
  let ?g = "\<lparr>possible = [''TRACE'', ''BRAVE''], correct = ''?????'', present = {}, absent = {}\<rparr>"
  let ?S = "\<lparr>answers = [''TRACE'', ''BRAVE''], allowed = [''ZZZZZ'', ''TRACE'', ''CRANE''],
            games = [?g]\<rparr>"
  have h1: "cache_reachable Map.empty" by (rule cache_reachable.initial)
  have h2: "\<exists>g\<in>set (games ?S). possible g \<noteq> []" by simp
  have h3: "allowed ?S \<noteq> []" by simp
  have h4: "\<forall>w\<in>set (take 2316 (allowed ?S)). length w \<le> 5" by simp
  have h0: "\<forall>g\<in>set (games ?S). length (possible g) \<le> 2" by simp
  from C6_first_maximum_of_prefix[OF exact_sign h0 exact_order h1 h2 h3 h4] obtain k sc where
    k: "k < min 2316 (length (allowed ?S))"
    and r: "fst (get_best_guess exact_arith Map.empty ?S) = Inr (Some (allowed ?S ! k))"
    and s: "\<forall>c w. cache_reachable c \<longrightarrow> w \<in> set (take 2316 (allowed ?S)) \<longrightarrow>
              fst (calculate_entropy exact_arith c w
                    (filter (\<lambda>g. possible g \<noteq> []) (games ?S))) = Inr (sc w)"
    and m: "\<forall>j<min 2316 (length (allowed ?S)).
              \<not> f_gt exact_arith (sc (allowed ?S ! j)) (sc (allowed ?S ! k))"
    and f: "\<forall>j<k. f_gt exact_arith (sc (allowed ?S ! k)) (sc (allowed ?S ! j))"
    by blast
  have l: "log 2 (1 / 2) = (- 1 :: real)"
    by (simp add: log_divide)
  have e0: "fst (calculate_entropy exact_arith Map.empty ''ZZZZZ'' [?g]) = Inr 0"
    by (simp add: calculate_entropy_def get_pattern_cached_def get_pattern_def
          numeral_eq_Suc entropy_term_def exact_arith_def)
  have e1: "fst (calculate_entropy exact_arith Map.empty ''TRACE'' [?g]) = Inr 1"
    by (simp add: calculate_entropy_def get_pattern_cached_def get_pattern_def
          numeral_eq_Suc entropy_term_def exact_arith_def l)
  have e2: "fst (calculate_entropy exact_arith Map.empty ''CRANE'' [?g]) = Inr 1"
    by (simp add: calculate_entropy_def get_pattern_cached_def get_pattern_def
          numeral_eq_Suc entropy_term_def exact_arith_def l)
  from s h1 e0 have s0: "sc ''ZZZZZ'' = 0" by simp
  from s h1 e1 have s1: "sc ''TRACE'' = 1" by simp
  from s h1 e2 have s2: "sc ''CRANE'' = 1" by simp
  have gt: "f_gt exact_arith = (\<lambda>a b. a > b)" by (simp add: exact_arith_def)
  from k have "k = 0 \<or> k = 1 \<or> k = 2" by auto
  then have "k = 1"
  proof (elim disjE)
    assume k0: "k = 0"
    have "1 < min 2316 (length (allowed ?S))" by simp
    with m have "\<not> f_gt exact_arith (sc (allowed ?S ! 1)) (sc (allowed ?S ! k))" by blast
    with k0 s0 s1 gt show ?thesis by simp
  next
    assume "k = 1"
    then show ?thesis .
  next
    assume k2: "k = 2"
    then have "1 < k" by simp
    with f have "f_gt exact_arith (sc (allowed ?S ! k)) (sc (allowed ?S ! 1))" by blast
    with k2 s1 s2 gt show ?thesis by simp
  qed
  with r show ?thesis by simp
qed

subsection \<open>The two statements in exact arithmetic\<close>

text \<open>
  In exact arithmetic the properties of the numbers are theorems, and the
  statements about the score and about \<open>None\<close> need no hypothesis on them.
\<close>

lemma board_le_total:
  "\<forall>s\<in>set states. length (possible s) \<le> sum_list (map (\<lambda>s. length (possible s)) states)"
  by (induction states) auto

lemma exact_entropy_nonneg:
  assumes "length word \<le> 5"
  shows "\<exists>v. fst (calculate_entropy exact_arith cache word states) = Inr v \<and> 0 \<le> v \<and>
           calculate_entropy exact_arith cache word states =
             calculate_entropy exact_arith cache word (filter (\<lambda>s. possible s \<noteq> []) states) \<and>
           ((\<forall>s\<in>set states. length (possible s) \<le> 1) \<longrightarrow> v = 0)"
proof -
  let ?n = "sum_list (map (\<lambda>s. length (possible s)) states)"
  have z: "f_zero exact_arith = 0" "f_ge exact_arith = (\<lambda>a b. a \<ge> b)" "f_eq exact_arith = (=)"
    by (simp_all add: exact_arith_def)
  from entropy_loop_ok[OF assms, of exact_arith cache states "f_zero exact_arith" ?n]
    exact_sign[of ?n] exact_zero board_le_total[of states]
  show ?thesis
    by (auto simp: z calculate_entropy_def entropy_loop_skip)
qed

lemma exact_none_iff_all_solved:
  assumes "allowed self \<noteq> []"
    and "\<forall>w\<in>set (take 2316 (allowed self)). length w \<le> 5"
  shows "(fst (get_best_guess exact_arith cache self) = Inr None \<longleftrightarrow>
            (\<forall>g\<in>set (games self). possible g = [])) \<and>
         ((\<exists>g\<in>set (games self). possible g \<noteq> []) \<longrightarrow>
            (\<exists>w. fst (get_best_guess exact_arith cache self) = Inr (Some w)))"
proof (cases "filter (\<lambda>g. possible g \<noteq> []) (games self) = []")
  case True
  then have "\<forall>g\<in>set (games self). possible g = []"
    by (simp add: filter_empty_conv)
  with True show ?thesis
    by (simp add: get_best_guess_def)
next
  case False
  let ?active = "filter (\<lambda>g. possible g \<noteq> []) (games self)"
  let ?n = "sum_list (map (\<lambda>s. length (possible s)) ?active)"
  from False have ex: "\<exists>g\<in>set (games self). possible g \<noteq> []"
    by (simp add: filter_empty_conv)
  from assms(1) have ne: "take 2316 (allowed self) \<noteq> []"
    by (cases "allowed self") simp_all
  have e: "\<forall>a. f_ge exact_arith a (f_zero exact_arith)
             \<longrightarrow> f_gt exact_arith a (f_neg exact_arith (f_inf exact_arith))"
    by (simp add: exact_arith_def)
  from best_loop_some[OF exact_sign[of ?n] board_le_total[of ?active] e assms(2),
      where cache = cache and bw = None and bs = "f_neg exact_arith (f_inf exact_arith)"] ne
  obtain r c where
    r: "best_loop exact_arith cache ?active (take 2316 (allowed self)) None
          (f_neg exact_arith (f_inf exact_arith)) = (Inr r, c)" "r \<noteq> None"
    by auto
  from r(2) obtain w where "r = Some w" by (cases r) auto
  with r(1) False have "fst (get_best_guess exact_arith cache self) = Inr (Some w)"
    by (simp add: get_best_guess_def)
  with ex show ?thesis by auto
qed

section \<open>The pattern of a guess\<close>

lemma drop_ConsD:
  assumes "drop i xs = y # ys"
  shows "i < length xs \<and> xs ! i = y \<and> drop (Suc i) xs = ys"
proof -
  from assms have i: "i < length xs" by (cases "i < length xs") auto
  from Cons_nth_drop_Suc[OF i] assms show ?thesis using i by simp
qed

lemma first_pass_inv:
  assumes "length pattern = n" and "length guess = n" and "length target = n"
    and "zs = drop i (zip guess target)" and "i \<le> n"
    and "\<forall>j<n. pattern ! j = (if j < i \<and> guess ! j = target ! j then ''C'' else '''')"
    and "\<forall>l. counts l = card {j. j < i \<and> guess ! j = l \<and> target ! j = l}"
  shows "\<exists>p c. first_pass i zs (pattern, counts) = Inr (p, c) \<and> length p = n \<and>
           (\<forall>j<n. p ! j = (if guess ! j = target ! j then ''C'' else '''')) \<and>
           (\<forall>l. c l = card {j. j < n \<and> guess ! j = l \<and> target ! j = l})"
  using assms
proof (induction zs arbitrary: i pattern counts)
  case Nil
  then have "i = n" by simp
  with Nil show ?case by simp
next
  case (Cons z zs)
  obtain g t where z: "z = (g, t)" by (cases z)
  from Cons.prems(4) z have d: "drop i (zip guess target) = (g, t) # zs" by simp
  from drop_ConsD[OF d] Cons.prems(2,3) have i: "i < n" and gt: "guess ! i = g" "target ! i = t"
    and zs: "zs = drop (Suc i) (zip guess target)" by auto
  have less: "{j. j < Suc i \<and> P j} = (if P i then insert i {j. j < i \<and> P j} else {j. j < i \<and> P j})"
    for P by (auto simp: less_Suc_eq)
  from i have Si: "Suc i \<le> n" by simp
  show ?case
  proof (cases "g = t")
    case True
    let ?p = "pattern[i := ''C'']"
    let ?c = "counts(t := counts t + 1)"
    have 1: "length ?p = n" using Cons.prems(1) by simp
    have 2: "\<forall>j<n. ?p ! j = (if j < Suc i \<and> guess ! j = target ! j then ''C'' else '''')"
      using Cons.prems(1,6) gt True i by (auto simp: nth_list_update less_Suc_eq)
    have 3: "\<forall>l. ?c l = card {j. j < Suc i \<and> guess ! j = l \<and> target ! j = l}"
      using Cons.prems(7) gt True by (simp add: less)
    from Cons.IH[OF 1 Cons.prems(2,3) zs Si 2 3] obtain p c where
      "first_pass (Suc i) zs (?p, ?c) = Inr (p, c)" "length p = n"
      "\<forall>j<n. p ! j = (if guess ! j = target ! j then ''C'' else '''')"
      "\<forall>l. c l = card {j. j < n \<and> guess ! j = l \<and> target ! j = l}"
      by blast
    with True i Cons.prems(1) z show ?thesis by simp
  next
    case False
    have 2: "\<forall>j<n. pattern ! j = (if j < Suc i \<and> guess ! j = target ! j then ''C'' else '''')"
      using Cons.prems(6) gt False by (auto simp: less_Suc_eq)
    have 3: "\<forall>l. counts l = card {j. j < Suc i \<and> guess ! j = l \<and> target ! j = l}"
      using Cons.prems(7) gt False by (auto simp: less)
    from Cons.IH[OF Cons.prems(1,2,3) zs Si 2 3] obtain p c where
      "first_pass (Suc i) zs (pattern, counts) = Inr (p, c)" "length p = n"
      "\<forall>j<n. p ! j = (if guess ! j = target ! j then ''C'' else '''')"
      "\<forall>l. c l = card {j. j < n \<and> guess ! j = l \<and> target ! j = l}"
      by blast
    with False z show ?thesis by simp
  qed
qed

lemma marked_same:
  assumes "i < n" and "length p = n" and "p ! i \<noteq> ''C''" and "p ! i \<noteq> ''P''"
    and "x \<noteq> ''C''" and "x \<noteq> ''P''"
  shows "marked n guess (p[i := x]) l = marked n guess p l"
  using assms unfolding marked_def by (auto simp: nth_list_update)

lemma marked_add:
  assumes "i < n" and "length p = n" and "p ! i \<noteq> ''C''" and "p ! i \<noteq> ''P''"
  shows "marked n guess (p[i := ''P'']) l =
           (if guess ! i = l then insert i (marked n guess p l) else marked n guess p l)"
  using assms unfolding marked_def by (auto simp: nth_list_update)

lemma marked_finite: "finite (marked n guess p l)"
  unfolding marked_def by simp

lemma second_pass_inv:
  assumes "length pattern = n" and "length guess = n"
    and "gs = drop i guess" and "i \<le> n"
    and "\<forall>j. i \<le> j \<and> j < n \<longrightarrow> pattern ! j \<noteq> ''P''"
    and "\<forall>l. counts l = card (marked n guess pattern l)"
    and "\<forall>l. counts l \<le> length (filter (\<lambda>t. t = l) target)"
  shows "\<exists>p c. second_pass target i gs (pattern, counts) = Inr (p, c) \<and> length p = n \<and>
           (\<forall>j<n. (p ! j = ''C'') = (pattern ! j = ''C'')) \<and>
           (\<forall>l. c l = card (marked n guess p l)) \<and>
           (\<forall>l. c l \<le> length (filter (\<lambda>t. t = l) target))"
  using assms
proof (induction gs arbitrary: i pattern counts)
  case Nil
  then show ?case by simp
next
  case (Cons g gs)
  from Cons.prems(3) have d: "drop i guess = g # gs" by simp
  from drop_ConsD[OF d] Cons.prems(2) have i: "i < n" and gi: "guess ! i = g"
    and gs: "gs = drop (Suc i) guess" by auto
  from i have Si: "Suc i \<le> n" by simp
  from Cons.prems(5) i have notP: "pattern ! i \<noteq> ''P''" by simp
  have later: "\<forall>j. Suc i \<le> j \<and> j < n \<longrightarrow> pattern ! j \<noteq> ''P''"
    using Cons.prems(5) by simp
  show ?case
  proof (cases "pattern ! i = ''C''")
    case True
    from Cons.IH[OF Cons.prems(1,2) gs Si later Cons.prems(6,7)] obtain p c where
      r: "second_pass target (Suc i) gs (pattern, counts) = Inr (p, c)" "length p = n"
      "\<forall>j<n. (p ! j = ''C'') = (pattern ! j = ''C'')"
      "\<forall>l. c l = card (marked n guess p l)"
      "\<forall>l. c l \<le> length (filter (\<lambda>t. t = l) target)"
      by blast
    from True i Cons.prems(1) r(1) have
      "second_pass target i (g # gs) (pattern, counts) = Inr (p, c)" by simp
    with r show ?thesis by blast
  next
    case notC: False
    show ?thesis
    proof (cases "length (filter (\<lambda>t. t = g) target) > counts g")
      case True
      let ?p = "pattern[i := ''P'']"
      let ?c = "counts(g := counts g + 1)"
      have 1: "length ?p = n" using Cons.prems(1) by simp
      have 5: "\<forall>j. Suc i \<le> j \<and> j < n \<longrightarrow> ?p ! j \<noteq> ''P''"
        using later by (simp add: nth_list_update)
      have notin: "i \<notin> marked n guess pattern g"
        using notC notP by (simp add: marked_def)
      have 6: "\<forall>l. ?c l = card (marked n guess ?p l)"
      proof
        fix l
        show "?c l = card (marked n guess ?p l)"
        proof (cases "l = g")
          case True
          with marked_add[OF i Cons.prems(1) notC notP, of guess g] gi
          have "marked n guess ?p l = insert i (marked n guess pattern g)" by simp
          with notin marked_finite[of n guess pattern g] Cons.prems(6) True
          show ?thesis by simp
        next
          case False
          with marked_add[OF i Cons.prems(1) notC notP, of guess l] gi
          have "marked n guess ?p l = marked n guess pattern l" by simp
          with Cons.prems(6) False show ?thesis by simp
        qed
      qed
      have 7: "\<forall>l. ?c l \<le> length (filter (\<lambda>t. t = l) target)"
        using Cons.prems(7) True by simp
      from Cons.IH[OF 1 Cons.prems(2) gs Si 5 6 7] obtain p c where
        r: "second_pass target (Suc i) gs (?p, ?c) = Inr (p, c)" "length p = n"
        "\<forall>j<n. (p ! j = ''C'') = (?p ! j = ''C'')"
        "\<forall>l. c l = card (marked n guess p l)"
        "\<forall>l. c l \<le> length (filter (\<lambda>t. t = l) target)"
        by blast
      from True notC i Cons.prems(1) r(1) have
        run: "second_pass target i (g # gs) (pattern, counts) = Inr (p, c)" by simp
      have "\<forall>j<n. (?p ! j = ''C'') = (pattern ! j = ''C'')"
        using notC i Cons.prems(1) by (auto simp: nth_list_update)
      with r(3) have "\<forall>j<n. (p ! j = ''C'') = (pattern ! j = ''C'')"
        by simp
      with run r show ?thesis by blast
    next
      case False
      let ?p = "pattern[i := ''A'']"
      have 1: "length ?p = n" using Cons.prems(1) by simp
      have 5: "\<forall>j. Suc i \<le> j \<and> j < n \<longrightarrow> ?p ! j \<noteq> ''P''"
        using later by (simp add: nth_list_update)
      have 6: "\<forall>l. counts l = card (marked n guess ?p l)"
        using Cons.prems(6) marked_same[OF i Cons.prems(1) notC notP, of "''A''" guess]
        by simp
      from Cons.IH[OF 1 Cons.prems(2) gs Si 5 6 Cons.prems(7)] obtain p c where
        r: "second_pass target (Suc i) gs (?p, counts) = Inr (p, c)" "length p = n"
        "\<forall>j<n. (p ! j = ''C'') = (?p ! j = ''C'')"
        "\<forall>l. c l = card (marked n guess p l)"
        "\<forall>l. c l \<le> length (filter (\<lambda>t. t = l) target)"
        by blast
      from False notC i Cons.prems(1) r(1) have
        run: "second_pass target i (g # gs) (pattern, counts) = Inr (p, c)" by simp
      have "\<forall>j<n. (?p ! j = ''C'') = (pattern ! j = ''C'')"
        using notC i Cons.prems(1) by (auto simp: nth_list_update)
      with r(3) have "\<forall>j<n. (p ! j = ''C'') = (pattern ! j = ''C'')"
        by simp
      with run r show ?thesis by blast
    qed
  qed
qed

lemma length_filter_upt: "length (filter Q [0..<n]) = card {j. j < n \<and> Q j}"
proof -
  have "{i. i < length [0..<n] \<and> Q ([0..<n] ! i)} = {j. j < n \<and> Q j}"
    by auto
  then show ?thesis
    by (simp add: length_filter_conv_card)
qed

lemma matches_le_occurrences:
  assumes "length t = n"
  shows "card {j. j < n \<and> g ! j = l \<and> t ! j = l} \<le> length (filter (\<lambda>c. c = l) t)"
proof -
  have "length (filter (\<lambda>c. c = l) t) = card {j. j < n \<and> t ! j = l}"
    using assms by (simp add: length_filter_conv_card)
  moreover have "card {j. j < n \<and> g ! j = l \<and> t ! j = l} \<le> card {j. j < n \<and> t ! j = l}"
    by (rule card_mono) auto
  ultimately show ?thesis by simp
qed

text \<open>
  C1: for five-letter words \<open>g\<close> and \<open>t\<close>, \<open>get_pattern\<close> returns a pattern
  of five cells; the number of positions marked \<open>C\<close> is the number of positions
  where \<open>g\<close> and \<open>t\<close> hold the same letter; and for every letter \<open>l\<close>, the
  number of positions of \<open>g\<close> that hold \<open>l\<close> and are marked \<open>C\<close> or \<open>P\<close>
  is at most the number of occurrences of \<open>l\<close> in \<open>t\<close>.
\<close>

theorem C1_pattern_counts:
  assumes "length g = 5" and "length t = 5"
  shows "\<exists>p. get_pattern g t = Inr p \<and> length p = 5 \<and>
           length (filter (\<lambda>i. p ! i = ''C'') [0..<5]) =
             length (filter (\<lambda>i. g ! i = t ! i) [0..<5]) \<and>
           (\<forall>l. length (filter (\<lambda>i. g ! i = l \<and> (p ! i = ''C'' \<or> p ! i = ''P'')) [0..<5])
                  \<le> length (filter (\<lambda>c. c = l) t))"
proof -
  have len0: "length (replicate 5 (''''::string)) = 5" by simp
  have z: "zip g t = drop 0 (zip g t)" by simp
  have a6: "\<forall>j<5. replicate 5 (''''::string) ! j =
              (if j < 0 \<and> g ! j = t ! j then ''C'' else '''')" by simp
  have a7: "\<forall>l. (\<lambda>_. 0::nat) l = card {j. j < 0 \<and> g ! j = l \<and> t ! j = l}" by simp
  from first_pass_inv[OF len0 assms z _ a6 a7] obtain p1 c1 where
    f: "first_pass 0 (zip g t) (replicate 5 '''', \<lambda>_. 0) = Inr (p1, c1)" "length p1 = 5"
       "\<forall>j<5. p1 ! j = (if g ! j = t ! j then ''C'' else '''')"
       "\<forall>l. c1 l = card {j. j < 5 \<and> g ! j = l \<and> t ! j = l}"
    by auto
  have g0: "g = drop 0 g" by simp
  have b5: "\<forall>j. 0 \<le> j \<and> j < 5 \<longrightarrow> p1 ! j \<noteq> ''P''"
    using f(3) by simp
  have m1: "marked 5 g p1 l = {j. j < 5 \<and> g ! j = l \<and> t ! j = l}" for l
    using f(3) unfolding marked_def by (auto split: if_splits)
  have b6: "\<forall>l. c1 l = card (marked 5 g p1 l)"
    using f(4) m1 by simp
  have b7: "\<forall>l. c1 l \<le> length (filter (\<lambda>c. c = l) t)"
    using f(4) matches_le_occurrences[OF assms(2), of g] by simp
  from second_pass_inv[OF f(2) assms(1) g0 _ b5 b6 b7] obtain p c where
    s: "second_pass t 0 g (p1, c1) = Inr (p, c)" "length p = 5"
       "\<forall>j<5. (p ! j = ''C'') = (p1 ! j = ''C'')"
       "\<forall>l. c l = card (marked 5 g p l)"
       "\<forall>l. c l \<le> length (filter (\<lambda>c. c = l) t)"
    by auto
  from f(1) s(1) have run: "get_pattern g t = Inr p"
    by (simp add: get_pattern_def)
  from f(3) have "\<forall>j<5. (p1 ! j = ''C'') = (g ! j = t ! j)"
    by simp
  with s(3) have "{j. j < 5 \<and> p ! j = ''C''} = {j. j < 5 \<and> g ! j = t ! j}"
    by auto
  then have cs: "length (filter (\<lambda>i. p ! i = ''C'') [0..<5]) =
             length (filter (\<lambda>i. g ! i = t ! i) [0..<5])"
    by (simp add: length_filter_upt)
  have ps: "length (filter (\<lambda>i. g ! i = l \<and> (p ! i = ''C'' \<or> p ! i = ''P'')) [0..<5])
                  \<le> length (filter (\<lambda>c. c = l) t)" for l
    using s(4,5) by (simp add: length_filter_upt marked_def)
  from run s(2) cs ps show ?thesis by blast
qed

text \<open>
  An instance with a repeated letter: SPEED against ABIDE. No position is
  correct, and of the two E of the guess at most one is marked, ABIDE holding
  one E.
\<close>

theorem C1_pattern_counts_witness:
  "\<exists>p. get_pattern ''SPEED'' ''ABIDE'' = Inr p \<and> length p = 5 \<and>
     length (filter (\<lambda>i. p ! i = ''C'') [0..<5]) = 0 \<and>
     length (filter (\<lambda>i. ''SPEED'' ! i = CHR ''E'' \<and> (p ! i = ''C'' \<or> p ! i = ''P'')) [0..<5])
       \<le> 1"
proof -
  have h1: "length ''SPEED'' = 5" and h2: "length ''ABIDE'' = 5" by simp_all
  have e1: "length (filter (\<lambda>i. ''SPEED'' ! i = ''ABIDE'' ! i) [0..<5]) = 0"
    by code_simp
  have e2: "length (filter (\<lambda>c. c = CHR ''E'') ''ABIDE'') = 1"
    by simp
  from C1_pattern_counts[OF h1 h2] obtain p where
    p: "get_pattern ''SPEED'' ''ABIDE'' = Inr p" "length p = 5"
       "length (filter (\<lambda>i. p ! i = ''C'') [0..<5]) =
          length (filter (\<lambda>i. ''SPEED'' ! i = ''ABIDE'' ! i) [0..<5])"
       "\<forall>l. length (filter (\<lambda>i. ''SPEED'' ! i = l \<and> (p ! i = ''C'' \<or> p ! i = ''P'')) [0..<5])
                  \<le> length (filter (\<lambda>c. c = l) ''ABIDE'')"
    by blast
  from p(4) have "length (filter (\<lambda>i. ''SPEED'' ! i = CHR ''E'' \<and>
       (p ! i = ''C'' \<or> p ! i = ''P'')) [0..<5]) \<le> length (filter (\<lambda>c. c = CHR ''E'') ''ABIDE'')"
    by blast
  with p(1,2,3) e1 e2 show ?thesis by (intro exI[of _ p]) (simp only: simp_thms)
qed

end
